theory Spec2Isabelle
  imports Main
begin

section \<open>JavaScript values\<close>

text \<open>
  Payload values carried by envelopes and promises are JSON values. Numbers are the
  integral ones; fractional and non-finite numbers do not occur in the fields the
  event bus inspects.
\<close>

datatype jsval =
    JUndefined
  | JNull
  | JBool bool
  | JNum int
  | JStr string
  | JArr "jsval list"
  | JObj "(string \<times> jsval) list"

text \<open>JavaScript truthiness, as used by \<^verbatim>\<open>error ? reject(error) : resolve(result)\<close>.\<close>

fun truthy :: "jsval \<Rightarrow> bool" where
  "truthy JUndefined = False"
| "truthy JNull = False"
| "truthy (JBool b) = b"
| "truthy (JNum n) = (n \<noteq> 0)"
| "truthy (JStr s) = (s \<noteq> [])"
| "truthy (JArr xs) = True"
| "truthy (JObj kvs) = True"

text \<open>
  Exceptions: \<open>TypeError\<close> is raised by a property access or method call on
  \<^verbatim>\<open>undefined\<close> or \<^verbatim>\<open>null\<close>; \<open>UnhandledErrorEvent\<close> is what
  \<^verbatim>\<open>EventEmitter.emit('error', ...)\<close> raises when no listener is registered for
  \<^verbatim>\<open>'error'\<close>.
\<close>

datatype js_exn = TypeError | UnhandledErrorEvent

datatype 'a outcome = Returned 'a | Threw js_exn

subsection \<open>Decimal rendering of integers\<close>

text \<open>
  \<^verbatim>\<open>requestId.toString()\<close> and the template literal \<^verbatim>\<open>`${timeout}`\<close> render an
  integral number in decimal.
\<close>

definition digit_char :: "nat \<Rightarrow> char" where
  "digit_char d = ''0123456789'' ! (d mod 10)"

function show_nat :: "nat \<Rightarrow> string" where
  "show_nat n = (if n < 10 then [digit_char n] else show_nat (n div 10) @ [digit_char (n mod 10)])"
  by pat_completeness auto
termination
  by (relation "measure id") auto

declare show_nat.simps [simp del]

definition show_int :: "int \<Rightarrow> string" where
  "show_int i = (if i < 0 then CHR ''-'' # show_nat (nat (- i)) else show_nat (nat i))"

text \<open>
  \<^verbatim>\<open>str.split('/')\<close>: the pieces between separators; never empty.
\<close>

fun split_on :: "char \<Rightarrow> string \<Rightarrow> string list" where
  "split_on c [] = [[]]"
| "split_on c (x # xs) =
     (if x = c then [] # split_on c xs
      else (case split_on c xs of
              [] \<Rightarrow> [[x]]
            | w # ws \<Rightarrow> (x # w) # ws))"

text \<open>\<^verbatim>\<open>[x].concat(args)\<close>: an array argument is spliced, any other value is appended.\<close>

fun concat_args :: "jsval \<Rightarrow> jsval list" where
  "concat_args (JArr xs) = xs"
| "concat_args v = [v]"

section \<open>Wire envelopes\<close>

text \<open>
  An inbound message (\<^verbatim>\<open>message: any\<close>) is read through the fields
  \<^verbatim>\<open>channel, event, requestId, hadError, error, result\<close>, and its event through
  \<^verbatim>\<open>name, args, eventEmitterId, type\<close>. A field of the envelope that is absent
  (\<^verbatim>\<open>undefined\<close>) is \<open>None\<close>; present fields carry the types of the wire format:
  channel and event names are strings, ids are numbers.
\<close>

record event =
  ev_name :: "string option"
  ev_args :: jsval
  ev_eventEmitterId :: "int option"
  ev_type :: "string option"

record message =
  msg_channel :: "string option"
  msg_event :: "event option"
  msg_requestId :: "int option"
  msg_hadError :: jsval
  msg_error :: jsval
  msg_result :: jsval

text \<open>The outbound RPC request of \<^verbatim>\<open>callServiceFrameworkMethod\<close> (lines 162-168).\<close>

record rpc_request =
  req_serviceName :: string
  req_methodName :: string
  req_methodArgs :: "jsval list"
  req_serviceOptions :: jsval
  req_requestId :: int

text \<open>The request handed to \<^verbatim>\<open>socket.xhrRequest\<close> by \<^verbatim>\<open>callMethod\<close> (lines 138-145).\<close>

record xhr_request =
  xhr_uri :: string
  xhr_args :: "jsval list"
  xhr_extraOptions :: jsval

text \<open>
  The constants imported from \<^verbatim>\<open>./config\<close> and the function
  \<^verbatim>\<open>getRemoteEventName\<close> of \<^verbatim>\<open>./service-manager\<close> are parameters.
\<close>

record config =
  SERVICE_FRAMEWORK_EVENT_CHANNEL :: string
  SERVICE_FRAMEWORK_RPC_CHANNEL :: string
  SERVICE_FRAMEWORK_RPC_TIMEOUT_MS :: int
  SERVICE_FRAMEWORK3_CHANNEL :: string
  getRemoteEventName :: "string \<Rightarrow> string option \<Rightarrow> jsval \<Rightarrow> string"

section \<open>Event emitters, promises, timers\<close>

text \<open>
  The five kinds of \<^verbatim>\<open>EventEmitter\<close> objects of a \<^verbatim>\<open>NuclideRemoteEventbus\<close>:
  its four fields, and the emitters allocated by \<^verbatim>\<open>consumeEventEmitter\<close>.
\<close>

datatype emitter_ref =
    Eventbus
  | ServiceFrameworkEventEmitter
  | ServiceFrameworkRpcEmitter
  | ServiceFramework3Emitter
  | StreamEmitter nat

text \<open>
  Listeners. \<open>RpcSettle p\<close> is the closure of lines 171-173 settling promise \<open>p\<close>;
  \<open>DisposeEmitter i\<close> is the closure of line 245 deleting table entry \<open>i\<close>;
  \<open>Opaque c\<close> is a callback \<open>c\<close> supplied from outside the class (a subscriber's
  callback, a listener of the \<^verbatim>\<open>ClientComponent\<close>), whose calls are recorded.
\<close>

datatype listener = RpcSettle nat | DisposeEmitter int | Opaque nat

datatype entry = On listener | Once listener

text \<open>
  The envelope's event as the value passed to the listeners of the generic bus: the
  object with the fields that are present.
\<close>

definition event_js :: "event option \<Rightarrow> jsval" where
  "event_js e =
     (case e of
        None \<Rightarrow> JUndefined
      | Some ev \<Rightarrow>
          JObj ((case ev_name ev of None \<Rightarrow> [] | Some n \<Rightarrow> [(''name'', JStr n)]) @
                (if ev_args ev = JUndefined then [] else [(''args'', ev_args ev)]) @
                (case ev_eventEmitterId ev of None \<Rightarrow> []
                 | Some i \<Rightarrow> [(''eventEmitterId'', JNum i)]) @
                (case ev_type ev of None \<Rightarrow> [] | Some ty \<Rightarrow> [(''type'', JStr ty)])))"

datatype reason = Value jsval | Exception js_exn

datatype promise = Pending | Fulfilled jsval | Rejected reason

text \<open>The timer callback of lines 175-178, with the variables it closes over.\<close>

record timer =
  tm_requestId :: int
  tm_promise :: nat
  tm_timeout :: int
  tm_serviceName :: string
  tm_methodName :: string

text \<open>
  The continuation of line 120-121,
  \<^verbatim>\<open>() => this._unsubscribeEventFromServer(serviceName, eventMethodName, serviceOptions)\<close>.
\<close>

datatype reaction = UnsubscribeEvent string "string option" jsval

text \<open>
  The \<^verbatim>\<open>Disposable\<close> returned by \<^verbatim>\<open>registerEventListener\<close>: the variables its
  disposal action closes over, and whether it has been disposed.
\<close>

record disposable =
  d_remoteEventName :: string
  d_callback :: nat
  d_subscribePromise :: nat
  d_serviceName :: string
  d_eventMethodName :: "string option"
  d_serviceOptions :: jsval
  d_disposed :: bool

datatype log_entry =
    EmitterNotFound int "string option" jsval
  | BusClosedCallMethod string string
  | LoggedReason reason

section \<open>The state of a NuclideRemoteEventbus\<close>

text \<open>
  \<open>socket\<close> is \<^verbatim>\<open>this.socket\<close>: \<open>Some id\<close> while it references the
  \<^verbatim>\<open>NuclideSocket\<close> (whose \<^verbatim>\<open>id\<close> is all that is read from it), \<open>None\<close> once it
  is \<^verbatim>\<open>null\<close>. \<open>rpcRequestId\<close> is \<^verbatim>\<open>this._rpcRequestId\<close>, a number that only ever
  holds an integer: it starts at 1 and is incremented by 1. It is modelled as an integer,
  which agrees with the JavaScript number while the counter is below \<open>2^53\<close>: there
  \<^verbatim>\<open>x++\<close> is exact, whereas at \<open>2^53\<close> the number no longer advances. What is proved
  about the ids handed out states that bound.
  What the socket object was asked to do is kept in \<open>sent\<close>,
  \<open>xhr_requests\<close>, \<open>connect_waits\<close> and \<open>socket_closed\<close>, which outlive the
  reference. \<open>listeners\<close> holds, per emitter and event name, the registered listeners in
  registration order. \<open>eventEmitters\<close> is \<^verbatim>\<open>this._eventEmitters\<close>. \<open>promises\<close>,
  \<open>reactions\<close> (callbacks attached with \<^verbatim>\<open>then\<close> to a pending promise),
  \<open>microtasks\<close> and \<open>timers\<close> are the part of the JavaScript run time the class
  relies on. \<open>error_log\<close> records the calls of \<^verbatim>\<open>logger.error\<close>,
  \<open>delivered\<close> the calls of opaque callbacks with their arguments, and
  \<open>emitted\<close> the calls of \<^verbatim>\<open>emit\<close> (emitter, event name, arguments), each in
  the order they were made. \<open>disposables\<close> holds the \<^verbatim>\<open>Disposable\<close> objects
  handed out by \<^verbatim>\<open>registerEventListener\<close>.
\<close>

record bus =
  socket :: "string option"
  sent :: "rpc_request list"
  xhr_requests :: "xhr_request list"
  connect_waits :: nat
  socket_closed :: bool
  rpcRequestId :: int
  listeners :: "emitter_ref \<Rightarrow> string \<Rightarrow> entry list"
  eventEmitters :: "int \<rightharpoonup> nat"
  next_emitter :: nat
  promises :: "promise list"
  reactions :: "(nat \<times> reaction) list"
  microtasks :: "reaction list"
  timers :: "timer list"
  error_log :: "log_entry list"
  delivered :: "(nat \<times> jsval list) list"
  emitted :: "(emitter_ref \<times> string option \<times> jsval list) list"
  disposables :: "disposable list"

text \<open>The constructor (lines 45-57).\<close>

definition constructor :: "string \<Rightarrow> bus" where
  "constructor sid =
     \<lparr> socket = Some sid, sent = [], xhr_requests = [], connect_waits = 0,
       socket_closed = False, rpcRequestId = 1, listeners = (\<lambda>r k. []),
       eventEmitters = Map.empty, next_emitter = 0, promises = [], reactions = [],
       microtasks = [], timers = [], error_log = [], delivered = [], emitted = [],
       disposables = [] \<rparr>"

subsection \<open>Promises\<close>

definition new_promise :: "promise \<Rightarrow> bus \<Rightarrow> nat \<times> bus" where
  "new_promise st s = (length (promises s), s\<lparr>promises := promises s @ [st]\<rparr>)"

definition promise_state :: "bus \<Rightarrow> nat \<Rightarrow> promise" where
  "promise_state s p = (if p < length (promises s) then promises s ! p else Pending)"

text \<open>
  \<^verbatim>\<open>resolve\<close> and \<^verbatim>\<open>reject\<close> of a promise act only while it is pending. A
  fulfilment queues the \<^verbatim>\<open>then\<close> callbacks attached to the promise as microtasks;
  a rejection discards them (they were attached without a rejection handler).
\<close>

definition resolve :: "nat \<Rightarrow> jsval \<Rightarrow> bus \<Rightarrow> bus" where
  "resolve p v s =
     (if p < length (promises s) \<and> promises s ! p = Pending
      then s\<lparr>promises := (promises s)[p := Fulfilled v],
             microtasks := microtasks s @ map snd (filter (\<lambda>pr. fst pr = p) (reactions s)),
             reactions := filter (\<lambda>pr. fst pr \<noteq> p) (reactions s)\<rparr>
      else s)"

definition reject :: "nat \<Rightarrow> reason \<Rightarrow> bus \<Rightarrow> bus" where
  "reject p e s =
     (if p < length (promises s) \<and> promises s ! p = Pending
      then s\<lparr>promises := (promises s)[p := Rejected e],
             reactions := filter (\<lambda>pr. fst pr \<noteq> p) (reactions s)\<rparr>
      else s)"

text \<open>\<^verbatim>\<open>promise.then(f)\<close> with a fulfilment callback only.\<close>

definition then_do :: "nat \<Rightarrow> reaction \<Rightarrow> bus \<Rightarrow> bus" where
  "then_do p f s =
     (case promise_state s p of
        Pending \<Rightarrow> s\<lparr>reactions := reactions s @ [(p, f)]\<rparr>
      | Fulfilled v \<Rightarrow> s\<lparr>microtasks := microtasks s @ [f]\<rparr>
      | Rejected e \<Rightarrow> s)"

subsection \<open>EventEmitter\<close>

text \<open>
  \<^verbatim>\<open>on\<close> and \<^verbatim>\<open>once\<close> append; \<^verbatim>\<open>removeListener\<close> removes the most recently
  added registration of the listener; \<^verbatim>\<open>removeAllListeners(name)\<close> clears the name.
\<close>

definition on :: "emitter_ref \<Rightarrow> string \<Rightarrow> listener \<Rightarrow> bus \<Rightarrow> bus" where
  "on r k l s = s\<lparr>listeners := (listeners s)(r := (listeners s r)(k := listeners s r k @ [On l]))\<rparr>"

definition once :: "emitter_ref \<Rightarrow> string \<Rightarrow> listener \<Rightarrow> bus \<Rightarrow> bus" where
  "once r k l s = s\<lparr>listeners := (listeners s)(r := (listeners s r)(k := listeners s r k @ [Once l]))\<rparr>"

fun entry_listener :: "entry \<Rightarrow> listener" where
  "entry_listener (On l) = l"
| "entry_listener (Once l) = l"

fun remove_last :: "listener \<Rightarrow> entry list \<Rightarrow> entry list" where
  "remove_last l [] = []"
| "remove_last l (e # es) =
     (if l \<in> entry_listener ` set es then e # remove_last l es
      else if entry_listener e = l then es
      else e # es)"

definition removeListener :: "emitter_ref \<Rightarrow> string \<Rightarrow> listener \<Rightarrow> bus \<Rightarrow> bus" where
  "removeListener r k l s =
     s\<lparr>listeners := (listeners s)(r := (listeners s r)(k := remove_last l (listeners s r k)))\<rparr>"

definition removeAllListeners :: "emitter_ref \<Rightarrow> string \<Rightarrow> bus \<Rightarrow> bus" where
  "removeAllListeners r k s = s\<lparr>listeners := (listeners s)(r := (listeners s r)(k := []))\<rparr>"

text \<open>The value of the \<open>i\<close>-th argument of a call (\<^verbatim>\<open>undefined\<close> when not passed).\<close>

definition arg_value :: "jsval list \<Rightarrow> nat \<Rightarrow> jsval" where
  "arg_value as i = (if i < length as then as ! i else JUndefined)"

text \<open>Calling a listener with the arguments of the emit.\<close>

fun invoke :: "listener \<Rightarrow> jsval list \<Rightarrow> bus \<Rightarrow> bus" where
  "invoke (RpcSettle p) as s =
     (let error = arg_value as 0; result = arg_value as 1
      in if truthy error then reject p (Value error) s else resolve p result s)"
| "invoke (DisposeEmitter eventEmitterId) as s =
     s\<lparr>eventEmitters := (eventEmitters s)(eventEmitterId := None)\<rparr>"
| "invoke (Opaque c) as s = s\<lparr>delivered := delivered s @ [(c, as)]\<rparr>"

text \<open>A \<^verbatim>\<open>once\<close> registration removes itself before it calls its listener.\<close>

fun fire :: "emitter_ref \<Rightarrow> string \<Rightarrow> jsval list \<Rightarrow> entry \<Rightarrow> bus \<Rightarrow> bus" where
  "fire r k as (On l) s = invoke l as s"
| "fire r k as (Once l) s = invoke l as (removeListener r k l s)"

text \<open>
  The property key of an event name: an absent name is the key \<^verbatim>\<open>"undefined"\<close>.
\<close>

definition event_key :: "string option \<Rightarrow> string" where
  "event_key n = (case n of None \<Rightarrow> ''undefined'' | Some k \<Rightarrow> k)"

text \<open>
  \<^verbatim>\<open>emitter.emit(name, ...args)\<close>: raises when the name is \<^verbatim>\<open>'error'\<close> and no
  listener is registered for it; otherwise calls the listeners registered for the name
  at the time of the call, in registration order.
\<close>

definition emit :: "emitter_ref \<Rightarrow> string option \<Rightarrow> jsval list \<Rightarrow> bus \<Rightarrow> unit outcome \<times> bus" where
  "emit r n as s =
     (let s0 = s\<lparr>emitted := emitted s @ [(r, n, as)]\<rparr>
      in if n = Some ''error'' \<and> listeners s0 r ''error'' = [] then (Threw UnhandledErrorEvent, s0)
         else (Returned (), fold (fire r (event_key n) as) (listeners s0 r (event_key n)) s0))"

definition logger_error :: "log_entry \<Rightarrow> bus \<Rightarrow> bus" where
  "logger_error e s = s\<lparr>error_log := error_log s @ [e]\<rparr>"

section \<open>The methods of NuclideRemoteEventbus\<close>

text \<open>\<^verbatim>\<open>_handleSocketMessage\<close> (lines 59-89).\<close>

definition handleSocketMessage :: "config \<Rightarrow> message \<Rightarrow> bus \<Rightarrow> unit outcome \<times> bus" where
  "handleSocketMessage cfg message s =
     (let channel = msg_channel message; event = msg_event message in
      if channel = Some (SERVICE_FRAMEWORK_RPC_CHANNEL cfg) then
        (case msg_requestId message of
           None \<Rightarrow> (Threw TypeError, s)
         | Some requestId \<Rightarrow>
             emit ServiceFrameworkRpcEmitter (Some (show_int requestId))
               [msg_error message, msg_result message] s)
      else if channel = Some (SERVICE_FRAMEWORK_EVENT_CHANNEL cfg) then
        (case event of
           None \<Rightarrow> (Threw TypeError, s)
         | Some ev \<Rightarrow>
             emit ServiceFrameworkEventEmitter (ev_name ev) (concat_args (ev_args ev)) s)
      else if channel = Some (SERVICE_FRAMEWORK3_CHANNEL cfg) then
        (case msg_requestId message of
           None \<Rightarrow> (Threw TypeError, s)
         | Some requestId \<Rightarrow>
             emit ServiceFramework3Emitter (Some (show_int requestId))
               [msg_hadError message, msg_error message, msg_result message] s)
      else
        (case event of
           None \<Rightarrow> emit Eventbus channel [event_js event] s
         | Some ev \<Rightarrow>
             (case ev_eventEmitterId ev of
                None \<Rightarrow> emit Eventbus channel [event_js event] s
              | Some eventEmitterId \<Rightarrow>
                  if eventEmitterId = 0 then emit Eventbus channel [event_js event] s
                  else
                    (case eventEmitters s eventEmitterId of
                       None \<Rightarrow>
                         (Returned (),
                          logger_error (EmitterNotFound eventEmitterId (ev_type ev) (ev_args ev)) s)
                     | Some e \<Rightarrow>
                         (case emit (StreamEmitter e) (ev_type ev)
                                 (concat_args (ev_args ev)) s of
                            (Threw x, s') \<Rightarrow> (Threw x, s')
                          | (Returned u, s') \<Rightarrow> emit Eventbus channel [event_js event] s')))))"

text \<open>
  The id generator handed to the \<^verbatim>\<open>ClientComponent\<close> (line 56),
  \<^verbatim>\<open>() => this._rpcRequestId++\<close>.
\<close>

definition nextRequestId :: "bus \<Rightarrow> int \<times> bus" where
  "nextRequestId s = (rpcRequestId s, s\<lparr>rpcRequestId := (rpcRequestId s + 1)\<rparr>)"

text \<open>
  The rejection value of line 177, for a timeout that is an integral number of
  milliseconds. The template literal prints such a number with all its digits, as
  \<open>show_int\<close> does, while it is below \<open>2^53\<close> in absolute value; what is proved about the
  message states that bound.
\<close>

definition timeout_message :: "int \<Rightarrow> string \<Rightarrow> string \<Rightarrow> string" where
  "timeout_message timeout serviceName methodName =
     ''Timeout after '' @ show_int timeout @ '' for '' @ serviceName @ ''/'' @ methodName"

text \<open>
  \<^verbatim>\<open>callServiceFrameworkMethod\<close> (lines 152-180). The function is \<^verbatim>\<open>async\<close>: an
  exception raised in its body (\<^verbatim>\<open>this.socket.send\<close> on a \<^verbatim>\<open>null\<close> socket)
  rejects the promise it returns. The result is the promise returned to the caller.
\<close>

definition callServiceFrameworkMethod ::
  "string \<Rightarrow> string \<Rightarrow> jsval list \<Rightarrow> jsval \<Rightarrow> int \<Rightarrow> bus \<Rightarrow> nat \<times> bus" where
  "callServiceFrameworkMethod serviceName methodName methodArgs serviceOptions timeout s =
     (let requestId = rpcRequestId s;
          s1 = s\<lparr>rpcRequestId := (rpcRequestId s + 1)\<rparr>
      in case socket s1 of
           None \<Rightarrow> new_promise (Rejected (Exception TypeError)) s1
         | Some sid \<Rightarrow>
             (let s2 = s1\<lparr>sent := sent s1 @
                         [\<lparr>req_serviceName = serviceName, req_methodName = methodName,
                           req_methodArgs = methodArgs, req_serviceOptions = serviceOptions,
                           req_requestId = requestId\<rparr>]\<rparr>;
                  (p, s3) = new_promise Pending s2;
                  s4 = once ServiceFrameworkRpcEmitter (show_int requestId) (RpcSettle p) s3
              in (p, s4\<lparr>timers := timers s4 @
                         [\<lparr>tm_requestId = requestId, tm_promise = p, tm_timeout = timeout,
                           tm_serviceName = serviceName, tm_methodName = methodName\<rparr>]\<rparr>)))"

text \<open>
  The timer callback of lines 175-178, run when a pending timer expires. No timer is
  ever cancelled, so each runs once.
\<close>

definition fireTimer :: "timer \<Rightarrow> bus \<Rightarrow> bus" where
  "fireTimer t s =
     (if t \<in> set (timers s)
      then reject (tm_promise t)
             (Value (JStr (timeout_message (tm_timeout t) (tm_serviceName t) (tm_methodName t))))
             (removeAllListeners ServiceFrameworkRpcEmitter (show_int (tm_requestId t))
                (s\<lparr>timers := remove1 t (timers s)\<rparr>))
      else s)"

definition undefined_or_str :: "string option \<Rightarrow> jsval" where
  "undefined_or_str x = (case x of None \<Rightarrow> JUndefined | Some v \<Rightarrow> JStr v)"

text \<open>
  \<^verbatim>\<open>_subscribeEventOnServer\<close> and \<^verbatim>\<open>_unsubscribeEventFromServer\<close> (lines 91-107).
  They are not \<^verbatim>\<open>async\<close>: reading \<^verbatim>\<open>this.socket.id\<close> on a \<^verbatim>\<open>null\<close> socket
  raises before the call is made.
\<close>

definition subscribeEventOnServer ::
  "config \<Rightarrow> string \<Rightarrow> string option \<Rightarrow> jsval \<Rightarrow> bus \<Rightarrow> nat outcome \<times> bus" where
  "subscribeEventOnServer cfg serviceName methodName serviceOptions s =
     (case socket s of
        None \<Rightarrow> (Threw TypeError, s)
      | Some sid \<Rightarrow>
          (let (p, s') = callServiceFrameworkMethod ''serviceFramework'' ''subscribeEvent''
                           [JStr sid, JStr serviceName, undefined_or_str methodName]
                           serviceOptions (SERVICE_FRAMEWORK_RPC_TIMEOUT_MS cfg) s
           in (Returned p, s')))"

definition unsubscribeEventFromServer ::
  "config \<Rightarrow> string \<Rightarrow> string option \<Rightarrow> jsval \<Rightarrow> bus \<Rightarrow> nat outcome \<times> bus" where
  "unsubscribeEventFromServer cfg serviceName methodName serviceOptions s =
     (case socket s of
        None \<Rightarrow> (Threw TypeError, s)
      | Some sid \<Rightarrow>
          (let (p, s') = callServiceFrameworkMethod ''serviceFramework'' ''unsubscribeEvent''
                           [JStr sid, JStr serviceName, undefined_or_str methodName]
                           serviceOptions (SERVICE_FRAMEWORK_RPC_TIMEOUT_MS cfg) s
           in (Returned p, s')))"

text \<open>
  \<^verbatim>\<open>registerEventListener\<close> (lines 109-123). The result is the index of the
  \<^verbatim>\<open>Disposable\<close> it returns.
\<close>

definition registerEventListener ::
  "config \<Rightarrow> string \<Rightarrow> nat \<Rightarrow> jsval \<Rightarrow> bus \<Rightarrow> nat outcome \<times> bus" where
  "registerEventListener cfg localEventName callback serviceOptions s =
     (let parts = split_on CHR ''/'' localEventName;
          serviceName = (case parts of [] \<Rightarrow> [] | x # xs \<Rightarrow> x);
          eventMethodName = (case parts of x # y # ys \<Rightarrow> Some y | _ \<Rightarrow> None);
          remoteEventName = getRemoteEventName cfg serviceName eventMethodName serviceOptions;
          s1 = on ServiceFrameworkEventEmitter remoteEventName (Opaque callback) s
      in case subscribeEventOnServer cfg serviceName eventMethodName serviceOptions s1 of
           (Threw x, s2) \<Rightarrow> (Threw x, s2)
         | (Returned subscribePromise, s2) \<Rightarrow>
             (Returned (length (disposables s2)),
              s2\<lparr>disposables := disposables s2 @
                   [\<lparr>d_remoteEventName = remoteEventName, d_callback = callback,
                     d_subscribePromise = subscribePromise, d_serviceName = serviceName,
                     d_eventMethodName = eventMethodName,
                     d_serviceOptions = serviceOptions, d_disposed = False\<rparr>]\<rparr>))"

text \<open>
  The disposal action (lines 118-122), and \<^verbatim>\<open>Disposable.dispose\<close>, which runs it the
  first time only.
\<close>

definition disposalAction :: "disposable \<Rightarrow> bus \<Rightarrow> bus" where
  "disposalAction d s =
     then_do (d_subscribePromise d)
       (UnsubscribeEvent (d_serviceName d) (d_eventMethodName d) (d_serviceOptions d))
       (removeListener ServiceFrameworkEventEmitter (d_remoteEventName d) (Opaque (d_callback d)) s)"

definition dispose :: "nat \<Rightarrow> bus \<Rightarrow> bus" where
  "dispose i s =
     (if i < length (disposables s) \<and> \<not> d_disposed (disposables s ! i)
      then disposalAction (disposables s ! i)
             (s\<lparr>disposables := (disposables s)[i := (disposables s ! i)\<lparr>d_disposed := True\<rparr>]\<rparr>)
      else s)"

text \<open>
  Running the queued \<^verbatim>\<open>then\<close> callbacks once the current call has returned. A callback
  that raises rejects the promise \<^verbatim>\<open>then\<close> returned, which nothing observes.
\<close>

fun run_reaction :: "config \<Rightarrow> reaction \<Rightarrow> bus \<Rightarrow> bus" where
  "run_reaction cfg (UnsubscribeEvent serviceName eventMethodName serviceOptions) s =
     snd (unsubscribeEventFromServer cfg serviceName eventMethodName serviceOptions s)"

definition run_microtasks :: "config \<Rightarrow> bus \<Rightarrow> bus" where
  "run_microtasks cfg s = fold (run_reaction cfg) (microtasks s) (s\<lparr>microtasks := []\<rparr>)"

text \<open>
  \<^verbatim>\<open>callMethod\<close> (lines 125-150), up to the request it hands to the socket, and its
  continuation once the request has settled.
\<close>

definition callMethod ::
  "string \<Rightarrow> string \<Rightarrow> jsval list option \<Rightarrow> jsval \<Rightarrow> bus \<Rightarrow> nat \<times> bus" where
  "callMethod serviceName methodName methodArgs extraOptions s =
     (case socket s of
        None \<Rightarrow>
          new_promise (Fulfilled JUndefined)
            (logger_error (BusClosedCallMethod serviceName methodName) s)
      | Some sid \<Rightarrow>
          new_promise Pending
            (s\<lparr>xhr_requests := xhr_requests s @
                 [\<lparr>xhr_uri = serviceName @ ''/'' @ methodName,
                   xhr_args = (case methodArgs of None \<Rightarrow> [] | Some as \<Rightarrow> as),
                   xhr_extraOptions = extraOptions\<rparr>]\<rparr>))"

definition callMethod_settled :: "nat \<Rightarrow> reason + jsval \<Rightarrow> bus \<Rightarrow> bus" where
  "callMethod_settled p r s =
     (case r of
        Inl err \<Rightarrow> reject p err (logger_error (LoggedReason err) s)
      | Inr v \<Rightarrow> resolve p v s)"

text \<open>
  \<^verbatim>\<open>consumeEventEmitter\<close> (lines 236-253) up to its first suspension, the
  \<^verbatim>\<open>await this.socket.waitForConnect()\<close> of \<^verbatim>\<open>_callSubscribe\<close> (line 217), and
  \<^verbatim>\<open>consumeStream\<close> (lines 226-229). The result is the new emitter; \<open>Threw\<close> is the
  exception the returned promise is rejected with.
\<close>

definition consumeEventEmitter ::
  "int \<Rightarrow> string list \<Rightarrow> string list option \<Rightarrow> bus \<Rightarrow> nat outcome \<times> bus" where
  "consumeEventEmitter eventEmitterId eventNames disposeEventNames s =
     (let eventEmitter = next_emitter s;
          s1 = s\<lparr>next_emitter := Suc eventEmitter,
                 listeners := (listeners s)(StreamEmitter eventEmitter := (\<lambda>k. [])),
                 eventEmitters := (eventEmitters s)(eventEmitterId \<mapsto> eventEmitter)\<rparr>;
          s2 = fold (\<lambda>disposeEventName.
                       once (StreamEmitter eventEmitter) disposeEventName
                         (DisposeEmitter eventEmitterId))
                 (case disposeEventNames of None \<Rightarrow> [] | Some ns \<Rightarrow> ns) s1
      in case socket s2 of
           None \<Rightarrow> (Threw TypeError, s2)
         | Some sid \<Rightarrow> (Returned eventEmitter, s2\<lparr>connect_waits := Suc (connect_waits s2)\<rparr>))"

definition consumeStream :: "int \<Rightarrow> bus \<Rightarrow> nat outcome \<times> bus" where
  "consumeStream streamId s =
     consumeEventEmitter streamId [''data'', ''error'', ''close'', ''end''] (Some [''end'']) s"

definition eventEmitterChannel :: "int \<Rightarrow> string" where
  "eventEmitterChannel i = ''event_emitter/'' @ show_int i"

text \<open>\<^verbatim>\<open>close\<close> (lines 255-258).\<close>

definition close :: "bus \<Rightarrow> unit outcome \<times> bus" where
  "close s =
     (case socket s of
        None \<Rightarrow> (Threw TypeError, s)
      | Some sid \<Rightarrow> (Returned (), s\<lparr>socket_closed := True, socket := None\<rparr>))"

section \<open>Runs of the event loop\<close>

text \<open>
  What can happen to an event bus: the socket delivers a message, a timer expires, or
  one of the methods is called from outside (\<open>Listen\<close> is a caller attaching a callback
  to one of the emitters it can reach: \<^verbatim>\<open>this.eventbus.on(channel, handler)\<close> of line
  209, or \<^verbatim>\<open>on\<close> of an emitter obtained from \<^verbatim>\<open>consumeEventEmitter\<close>). Each is one task
  of the event loop: the call runs to its end, then the queued microtasks run.
\<close>

datatype op =
    Message message
  | TimerExpired timer
  | CallServiceFrameworkMethod string string "jsval list" jsval int
  | NextRequestId
  | RegisterEventListener string nat jsval
  | Dispose nat
  | CallMethod string string "jsval list option" jsval
  | ConsumeEventEmitter int "string list" "string list option"
  | Listen emitter_ref string nat
  | Close

fun task :: "config \<Rightarrow> op \<Rightarrow> bus \<Rightarrow> bus" where
  "task cfg (Message m) s = snd (handleSocketMessage cfg m s)"
| "task cfg (TimerExpired t) s = fireTimer t s"
| "task cfg (CallServiceFrameworkMethod serviceName methodName methodArgs serviceOptions timeout) s =
     snd (callServiceFrameworkMethod serviceName methodName methodArgs serviceOptions timeout s)"
| "task cfg NextRequestId s = snd (nextRequestId s)"
| "task cfg (RegisterEventListener localEventName callback serviceOptions) s =
     snd (registerEventListener cfg localEventName callback serviceOptions s)"
| "task cfg (Dispose i) s = dispose i s"
| "task cfg (CallMethod serviceName methodName methodArgs extraOptions) s =
     snd (callMethod serviceName methodName methodArgs extraOptions s)"
| "task cfg (ConsumeEventEmitter eventEmitterId eventNames disposeEventNames) s =
     snd (consumeEventEmitter eventEmitterId eventNames disposeEventNames s)"
| "task cfg (Listen r k c) s =
     (if r = ServiceFrameworkRpcEmitter then s else on r k (Opaque c) s)"
| "task cfg Close s = snd (close s)"

definition step :: "config \<Rightarrow> op \<Rightarrow> bus \<Rightarrow> bus" where
  "step cfg a s = run_microtasks cfg (task cfg a s)"

definition run :: "config \<Rightarrow> op list \<Rightarrow> bus \<Rightarrow> bus" where
  "run cfg ops s = fold (step cfg) ops s"

text \<open>A configuration to run the definitions on.\<close>

definition sample_config :: config where
  "sample_config =
     \<lparr> SERVICE_FRAMEWORK_EVENT_CHANNEL = ''service_framework_event'',
       SERVICE_FRAMEWORK_RPC_CHANNEL = ''service_framework_rpc'',
       SERVICE_FRAMEWORK_RPC_TIMEOUT_MS = 60000,
       SERVICE_FRAMEWORK3_CHANNEL = ''service_framework3_rpc'',
       getRemoteEventName =
         (\<lambda>serviceName eventMethodName serviceOptions.
            serviceName @ ''/'' @ event_key eventMethodName) \<rparr>"

section \<open>Auxiliary notions\<close>

text \<open>
  The test of line 80, \<^verbatim>\<open>event && event.eventEmitterId\<close>: the id of the envelope's
  event when it has one that is truthy.
\<close>

definition stream_id :: "message \<Rightarrow> int option" where
  "stream_id m =
     (case msg_event m of
        None \<Rightarrow> None
      | Some ev \<Rightarrow> (case ev_eventEmitterId ev of
                     None \<Rightarrow> None
                   | Some i \<Rightarrow> if i = 0 then None else Some i))"
text \<open>The envelope carries one of the three service-framework channels (lines 62, 68, 74).\<close>

definition service_channel :: "config \<Rightarrow> message \<Rightarrow> bool" where
  "service_channel cfg m \<longleftrightarrow>
     msg_channel m = Some (SERVICE_FRAMEWORK_RPC_CHANNEL cfg) \<or>
     msg_channel m = Some (SERVICE_FRAMEWORK_EVENT_CHANNEL cfg) \<or>
     msg_channel m = Some (SERVICE_FRAMEWORK3_CHANNEL cfg)"
text \<open>The case in which \<^verbatim>\<open>emit\<close> raises.\<close>

definition error_event_unhandled :: "bus \<Rightarrow> emitter_ref \<Rightarrow> string option \<Rightarrow> bool" where
  "error_event_unhandled s r n \<longleftrightarrow> n = Some ''error'' \<and> listeners s r ''error'' = []"
text \<open>The fields that calling listeners never touches, and those a message never touches.\<close>

definition same_outside :: "bus \<Rightarrow> bus \<Rightarrow> bool" where
  "same_outside s s' \<longleftrightarrow>
     socket s' = socket s \<and> sent s' = sent s \<and> xhr_requests s' = xhr_requests s \<and>
     connect_waits s' = connect_waits s \<and> socket_closed s' = socket_closed s \<and>
     rpcRequestId s' = rpcRequestId s \<and> next_emitter s' = next_emitter s \<and>
     timers s' = timers s \<and> error_log s' = error_log s \<and> emitted s' = emitted s \<and>
     disposables s' = disposables s"
definition same_core :: "bus \<Rightarrow> bus \<Rightarrow> bool" where
  "same_core s s' \<longleftrightarrow>
     socket s' = socket s \<and> sent s' = sent s \<and> xhr_requests s' = xhr_requests s \<and>
     connect_waits s' = connect_waits s \<and> socket_closed s' = socket_closed s \<and>
     rpcRequestId s' = rpcRequestId s \<and> next_emitter s' = next_emitter s \<and>
     timers s' = timers s \<and> disposables s' = disposables s"
text \<open>What holds of the state of an event bus between any two tasks of a run.\<close>

definition consistent :: "bus \<Rightarrow> bool" where
  "consistent s \<longleftrightarrow>
     1 \<le> rpcRequestId s \<and>
     (\<forall>r\<ge>rpcRequestId s. listeners s ServiceFrameworkRpcEmitter (show_int r) = []) \<and>
     (\<forall>q \<in> fst ` set (reactions s). q < length (promises s)) \<and>
     (\<forall>d \<in> set (disposables s). d_subscribePromise d < length (promises s))"
text \<open>
  The bookkeeping of the calls in flight. Every pending timer belongs to one call, with
  its own request id and its own promise; while the promise of a call is pending, its
  settling closure is the one listener registered on the RPC emitter under its request id;
  the RPC emitter holds no other listener, and no other emitter holds a settling closure.
\<close>

fun is_settle :: "entry \<Rightarrow> bool" where
  "is_settle e = (case entry_listener e of RpcSettle p \<Rightarrow> True | _ \<Rightarrow> False)"
definition tracked :: "bus \<Rightarrow> bool" where
  "tracked s \<longleftrightarrow>
     distinct (timers s) \<and>
     (\<forall>t \<in> set (timers s). \<forall>u \<in> set (timers s).
        tm_requestId t = tm_requestId u \<or> tm_promise t = tm_promise u \<longrightarrow> t = u) \<and>
     (\<forall>t \<in> set (timers s). tm_requestId t < rpcRequestId s \<and> tm_promise t < length (promises s)) \<and>
     (\<forall>t \<in> set (timers s). promises s ! tm_promise t = Pending \<longrightarrow>
        listeners s ServiceFrameworkRpcEmitter (show_int (tm_requestId t)) =
          [Once (RpcSettle (tm_promise t))]) \<and>
     (\<forall>k. listeners s ServiceFrameworkRpcEmitter k \<noteq> [] \<longrightarrow>
        (\<exists>t \<in> set (timers s). k = show_int (tm_requestId t) \<and>
           listeners s ServiceFrameworkRpcEmitter k = [Once (RpcSettle (tm_promise t))])) \<and>
     (\<forall>r k. r \<noteq> ServiceFrameworkRpcEmitter \<longrightarrow> (\<forall>e \<in> set (listeners s r k). \<not> is_settle e))"
text \<open>A call is in flight while its timer is pending and its promise is unsettled.\<close>

definition in_flight :: "timer \<Rightarrow> bus \<Rightarrow> bool" where
  "in_flight t s \<longleftrightarrow> t \<in> set (timers s) \<and> promises s ! tm_promise t = Pending"
text \<open>
  The task that concerns the call of a timer: the RPC response carrying its request id, or
  the expiry of the timer.
\<close>

fun hits :: "config \<Rightarrow> op \<Rightarrow> timer \<Rightarrow> bool" where
  "hits cfg (Message m) t \<longleftrightarrow>
     msg_channel m = Some (SERVICE_FRAMEWORK_RPC_CHANNEL cfg) \<and>
     msg_requestId m = Some (tm_requestId t)"
| "hits cfg (TimerExpired u) t \<longleftrightarrow> u = t"
| "hits cfg a t \<longleftrightarrow> False"
text \<open>
  How a task may change the bookkeeping: not at all but for new promises and a larger
  counter (\<open>frame\<close>); by adding calls only (\<open>keeps\<close>); by settling the call of one
  timer (\<open>affects\<close>). In each case a settled promise keeps its state, and no new timer
  carries an id handed out before (\<open>settles\<close>).
\<close>

definition frame :: "bus \<Rightarrow> bus \<Rightarrow> bool" where
  "frame s s' \<longleftrightarrow>
     timers s' = timers s \<and> rpcRequestId s \<le> rpcRequestId s' \<and>
     length (promises s) \<le> length (promises s') \<and>
     (\<forall>i<length (promises s). promises s' ! i = promises s ! i) \<and>
     listeners s' ServiceFrameworkRpcEmitter = listeners s ServiceFrameworkRpcEmitter \<and>
     (\<forall>r k. r \<noteq> ServiceFrameworkRpcEmitter \<longrightarrow>
        (\<forall>e \<in> set (listeners s' r k). is_settle e \<longrightarrow> e \<in> set (listeners s r k)))"
definition keeps :: "bus \<Rightarrow> bus \<Rightarrow> bool" where
  "keeps s s' \<longleftrightarrow>
     set (timers s) \<subseteq> set (timers s') \<and>
     (\<forall>v \<in> set (timers s'). v \<in> set (timers s) \<or> rpcRequestId s \<le> tm_requestId v) \<and>
     rpcRequestId s \<le> rpcRequestId s' \<and>
     length (promises s) \<le> length (promises s') \<and>
     (\<forall>i<length (promises s). promises s' ! i = promises s ! i)"
definition affects :: "timer \<Rightarrow> bus \<Rightarrow> bus \<Rightarrow> bool" where
  "affects u s s' \<longleftrightarrow>
     (\<forall>t \<in> set (timers s). t \<noteq> u \<longrightarrow> t \<in> set (timers s')) \<and>
     (\<forall>v \<in> set (timers s'). v \<in> set (timers s) \<or> rpcRequestId s \<le> tm_requestId v) \<and>
     rpcRequestId s \<le> rpcRequestId s' \<and>
     length (promises s) \<le> length (promises s') \<and>
     (\<forall>i<length (promises s). i \<noteq> tm_promise u \<or> promises s ! i \<noteq> Pending \<longrightarrow>
        promises s' ! i = promises s ! i)"
definition settles :: "bus \<Rightarrow> bus \<Rightarrow> bool" where
  "settles s s' \<longleftrightarrow>
     (\<forall>v \<in> set (timers s'). v \<in> set (timers s) \<or> rpcRequestId s \<le> tm_requestId v) \<and>
     rpcRequestId s \<le> rpcRequestId s' \<and>
     length (promises s) \<le> length (promises s') \<and>
     (\<forall>i<length (promises s). promises s ! i \<noteq> Pending \<longrightarrow> promises s' ! i = promises s ! i)"
text \<open>
  The bookkeeping of the streams. \<open>disposers s r k\<close> are the ids whose removal from the
  table is registered on emitter \<open>r\<close> under the event name \<open>k\<close> (the listeners of line
  245). In every run the emitters in the table are distinct and were created before, the
  removals registered on the emitter of an id concern that id, and no removal is
  registered on an emitter that is not a stream's. \<open>streaming i e T s\<close>: the id \<open>i\<close> is in
  the table with emitter \<open>e\<close>, and its removal is registered under the names \<open>T\<close> and no
  other; \<open>same_stream\<close> relates two states that agree on that.
\<close>

definition disposers :: "bus \<Rightarrow> emitter_ref \<Rightarrow> string \<Rightarrow> int set" where
  "disposers s r k = {x. DisposeEmitter x \<in> entry_listener ` set (listeners s r k)}"
definition streams :: "bus \<Rightarrow> bool" where
  "streams s \<longleftrightarrow>
     (\<forall>j e. eventEmitters s j = Some e \<longrightarrow> e < next_emitter s) \<and>
     (\<forall>j j' e. eventEmitters s j = Some e \<longrightarrow> eventEmitters s j' = Some e \<longrightarrow> j = j') \<and>
     (\<forall>j e k x. eventEmitters s j = Some e \<longrightarrow> x \<in> disposers s (StreamEmitter e) k \<longrightarrow> x = j) \<and>
     (\<forall>r k x. x \<in> disposers s r k \<longrightarrow> (\<exists>e. r = StreamEmitter e))"
definition streaming :: "int \<Rightarrow> nat \<Rightarrow> string list \<Rightarrow> bus \<Rightarrow> bool" where
  "streaming i e T s \<longleftrightarrow>
     eventEmitters s i = Some e \<and> (\<forall>k. i \<in> disposers s (StreamEmitter e) k \<longleftrightarrow> k \<in> set T)"
definition same_stream :: "int \<Rightarrow> nat \<Rightarrow> bus \<Rightarrow> bus \<Rightarrow> bool" where
  "same_stream i e s s' \<longleftrightarrow>
     eventEmitters s' i = eventEmitters s i \<and>
     (\<forall>k. i \<in> disposers s' (StreamEmitter e) k \<longleftrightarrow> i \<in> disposers s (StreamEmitter e) k)"
text \<open>
  The tasks that end the stream of an id with terminal names \<open>T\<close> (a stream event for
  the id whose type is one of them), and those that consume the id again.
\<close>

fun ends :: "config \<Rightarrow> int \<Rightarrow> string list \<Rightarrow> op \<Rightarrow> bool" where
  "ends cfg i T (Message m) \<longleftrightarrow>
     \<not> service_channel cfg m \<and> stream_id m = Some i \<and>
     (case msg_event m of None \<Rightarrow> False | Some ev \<Rightarrow> event_key (ev_type ev) \<in> set T)"
| "ends cfg i T a \<longleftrightarrow> False"
fun reconsumes :: "int \<Rightarrow> op \<Rightarrow> bool" where
  "reconsumes i (ConsumeEventEmitter j ns d) \<longleftrightarrow> j = i"
| "reconsumes i a \<longleftrightarrow> False"
text \<open>
  The remote event name computed by \<^verbatim>\<open>registerEventListener\<close> (lines 114-115) and the
  request that \<^verbatim>\<open>_subscribeEventOnServer\<close> and \<^verbatim>\<open>_unsubscribeEventFromServer\<close>
  send for a local event name.
\<close>

definition remote_name :: "config \<Rightarrow> string \<Rightarrow> jsval \<Rightarrow> string" where
  "remote_name cfg localEventName serviceOptions =
     (let parts = split_on CHR ''/'' localEventName
      in getRemoteEventName cfg (case parts of [] \<Rightarrow> [] | x # xs \<Rightarrow> x)
           (case parts of x # y # ys \<Rightarrow> Some y | _ \<Rightarrow> None) serviceOptions)"
definition subscription_request ::
  "string \<Rightarrow> string \<Rightarrow> string \<Rightarrow> jsval \<Rightarrow> int \<Rightarrow> rpc_request" where
  "subscription_request methodName sid localEventName serviceOptions requestId =
     (let parts = split_on CHR ''/'' localEventName
      in \<lparr>req_serviceName = ''serviceFramework'', req_methodName = methodName,
          req_methodArgs =
            [JStr sid, JStr (case parts of [] \<Rightarrow> [] | x # xs \<Rightarrow> x),
             undefined_or_str (case parts of x # y # ys \<Rightarrow> Some y | _ \<Rightarrow> None)],
          req_serviceOptions = serviceOptions, req_requestId = requestId\<rparr>)"
text \<open>Sample envelopes: an RPC response, and an event of a stream on its own channel.\<close>

definition rpc_response :: "config \<Rightarrow> int option \<Rightarrow> jsval \<Rightarrow> jsval \<Rightarrow> message" where
  "rpc_response cfg r e v =
     \<lparr>msg_channel = Some (SERVICE_FRAMEWORK_RPC_CHANNEL cfg), msg_event = None, msg_requestId = r,
      msg_hadError = JUndefined, msg_error = e, msg_result = v\<rparr>"
definition stream_event :: "int \<Rightarrow> string \<Rightarrow> jsval \<Rightarrow> message" where
  "stream_event i ty as =
     \<lparr>msg_channel = Some (eventEmitterChannel i),
      msg_event = Some \<lparr>ev_name = None, ev_args = as, ev_eventEmitterId = Some i, ev_type = Some ty\<rparr>,
      msg_requestId = None, msg_hadError = JUndefined, msg_error = JUndefined,
      msg_result = JUndefined\<rparr>"

section \<open>Basic properties\<close>

subsection \<open>Decimal rendering and the request counter\<close>

lemma digit_char_in: "digit_char d \<in> set ''0123456789''"
  unfolding digit_char_def by (rule nth_mem) simp

lemma show_nat_digits: "set (show_nat n) \<subseteq> set ''0123456789''"
proof (induction n rule: show_nat.induct)
  case (1 n)
  show ?case
  proof (cases "n < 10")
    case True
    then show ?thesis using digit_char_in [of n] by (subst show_nat.simps) simp
  next
    case False
    then show ?thesis using 1 digit_char_in [of "n mod 10"] by (subst show_nat.simps) simp
  qed
qed

lemma show_int_not_error: "show_int r \<noteq> ''error''"
proof
  assume h: "show_int r = ''error''"
  show False
  proof (cases "r < 0")
    case True
    then show ?thesis using h by (simp add: show_int_def)
  next
    case False
    then have "set ''error'' \<subseteq> set ''0123456789''"
      using h show_nat_digits [of "nat r"] by (simp add: show_int_def)
    then show ?thesis by simp
  qed
qed

lemma digit_char_inj:
  assumes "a < 10" and "b < 10" and "digit_char a = digit_char b"
  shows "a = b"
proof -
  have d: "distinct ''0123456789''" by simp
  have "''0123456789'' ! a = ''0123456789'' ! b" using assms by (simp add: digit_char_def)
  then show ?thesis
    using nth_eq_iff_index_eq [OF d, of a b] assms by simp
qed

lemma show_nat_nonempty: "show_nat n \<noteq> []"
  by (subst show_nat.simps) simp

lemma show_nat_inj: "show_nat a = show_nat b \<Longrightarrow> a = b"
proof (induction a arbitrary: b rule: show_nat.induct)
  case (1 a)
  show ?case
  proof (cases "a < 10")
    case True
    note a = True
    show ?thesis
    proof (cases "b < 10")
      case True
      have "[digit_char a] = [digit_char b]"
        using "1.prems" a True by (simp add: show_nat.simps [of a] show_nat.simps [of b])
      then show ?thesis using digit_char_inj [OF a True] by simp
    next
      case False
      have "[digit_char a] = show_nat (b div 10) @ [digit_char (b mod 10)]"
        using "1.prems" a False by (simp add: show_nat.simps [of a] show_nat.simps [of b])
      then show ?thesis using show_nat_nonempty [of "b div 10"] by simp
    qed
  next
    case False
    note a = False
    show ?thesis
    proof (cases "b < 10")
      case True
      have "show_nat (a div 10) @ [digit_char (a mod 10)] = [digit_char b]"
        using "1.prems" a True by (simp add: show_nat.simps [of a] show_nat.simps [of b])
      then show ?thesis using show_nat_nonempty [of "a div 10"] by simp
    next
      case False
      have "show_nat (a div 10) @ [digit_char (a mod 10)] =
            show_nat (b div 10) @ [digit_char (b mod 10)]"
        using "1.prems" a False by (simp add: show_nat.simps [of a] show_nat.simps [of b])
      then have e: "show_nat (a div 10) = show_nat (b div 10)"
                   "digit_char (a mod 10) = digit_char (b mod 10)"
        by simp_all
      have "a div 10 = b div 10" using "1.IH" [OF a e(1)] .
      moreover have "a mod 10 = b mod 10"
        using digit_char_inj [of "a mod 10" "b mod 10"] e(2) by simp
      ultimately show ?thesis by (metis div_mult_mod_eq)
    qed
  qed
qed

lemma show_nat_no_minus: "hd (show_nat n) \<noteq> CHR ''-''"
proof -
  have "hd (show_nat n) \<in> set (show_nat n)" using show_nat_nonempty by simp
  then have "hd (show_nat n) \<in> set ''0123456789''" using show_nat_digits by blast
  then show ?thesis by auto
qed

lemma show_int_inj: "show_int a = show_int b \<Longrightarrow> a = b"
proof -
  assume e: "show_int a = show_int b"
  show ?thesis
  proof (cases "a < 0")
    case True
    note a = True
    show ?thesis
    proof (cases "b < 0")
      case True
      then have "nat (- a) = nat (- b)" using e a show_nat_inj by (simp add: show_int_def)
      then show ?thesis using a True by simp
    next
      case False
      then have "CHR ''-'' # show_nat (nat (- a)) = show_nat (nat b)"
        using e a by (simp add: show_int_def)
      then have "hd (show_nat (nat b)) = CHR ''-''" by (metis list.sel(1))
      then show ?thesis using show_nat_no_minus by blast
    qed
  next
    case False
    note a = False
    show ?thesis
    proof (cases "b < 0")
      case True
      then have "show_nat (nat a) = CHR ''-'' # show_nat (nat (- b))"
        using e a by (simp add: show_int_def)
      then have "hd (show_nat (nat a)) = CHR ''-''" by (metis list.sel(1))
      then show ?thesis using show_nat_no_minus by blast
    next
      case False
      then have "nat a = nat b" using e a show_nat_inj by (simp add: show_int_def)
      then show ?thesis using a False by simp
    qed
  qed
qed
subsection \<open>Promises\<close>

lemma promise_state_eqI: "promises s' = promises s \<Longrightarrow> promise_state s' p = promise_state s p"
  by (simp add: promise_state_def)

lemma promise_state_resolve:
  "promise_state s p = Pending \<Longrightarrow> p < length (promises s) \<Longrightarrow>
   promise_state (resolve p v s) p = Fulfilled v"
  by (simp add: promise_state_def resolve_def)

lemma promise_state_reject:
  "promise_state s p = Pending \<Longrightarrow> p < length (promises s) \<Longrightarrow>
   promise_state (reject p e s) p = Rejected e"
  by (simp add: promise_state_def reject_def)

lemma reject_settled: "promise_state s p \<noteq> Pending \<Longrightarrow> reject p e s = s"
  by (simp add: promise_state_def reject_def split: if_splits)

subsection \<open>Calling listeners\<close>

lemma same_outside_refl: "same_outside s s"
  by (simp add: same_outside_def)

lemma same_outside_trans: "same_outside a b \<Longrightarrow> same_outside b c \<Longrightarrow> same_outside a c"
  by (simp add: same_outside_def)

lemma invoke_same_outside: "same_outside s (invoke l as s)"
  by (cases l) (simp_all add: same_outside_def resolve_def reject_def Let_def)

lemma fire_same_outside: "same_outside s (fire r k as e s)"
proof (cases e)
  case (On l)
  then show ?thesis by (simp add: invoke_same_outside)
next
  case (Once l)
  have "same_outside s (removeListener r k l s)"
    by (simp add: same_outside_def removeListener_def)
  then show ?thesis
    using Once invoke_same_outside same_outside_trans by (metis fire.simps(2))
qed

lemma fold_fire_same_outside: "same_outside s (fold (fire r k as) es s)"
proof (induction es arbitrary: s)
  case Nil
  show ?case by (simp add: same_outside_refl)
next
  case (Cons e es)
  show ?case
    using fire_same_outside [of s r k as e] Cons [of "fire r k as e s"]
    by (auto intro: same_outside_trans)
qed

lemma invoke_listeners: "listeners (invoke l as s) = listeners s"
  by (cases l) (simp_all add: resolve_def reject_def Let_def)

lemma fire_listeners_other: "r' \<noteq> r \<Longrightarrow> listeners (fire r k as e s) r' = listeners s r'"
  by (cases e) (simp_all add: invoke_listeners removeListener_def)

lemma fold_fire_listeners_other:
  "r' \<noteq> r \<Longrightarrow> listeners (fold (fire r k as) es s) r' = listeners s r'"
  by (induction es arbitrary: s) (simp_all add: fire_listeners_other)

lemma invoke_table_None:
  "eventEmitters s i = None \<Longrightarrow> eventEmitters (invoke l as s) i = None"
  by (cases l) (simp_all add: resolve_def reject_def Let_def)

lemma fire_table_None:
  "eventEmitters s i = None \<or> entry_listener e = DisposeEmitter i \<Longrightarrow>
   eventEmitters (fire r k as e s) i = None"
  by (cases e) (auto simp add: invoke_table_None removeListener_def)

lemma fold_fire_table_None:
  "eventEmitters s i = None \<or> DisposeEmitter i \<in> entry_listener ` set es \<Longrightarrow>
   eventEmitters (fold (fire r k as) es s) i = None"
proof (induction es arbitrary: s)
  case Nil
  then show ?case by simp
next
  case (Cons e es)
  show ?case
  proof (cases "eventEmitters s i = None \<or> entry_listener e = DisposeEmitter i")
    case True
    then have "eventEmitters (fire r k as e s) i = None" by (rule fire_table_None)
    then show ?thesis using Cons.IH [of "fire r k as e s"] by simp
  next
    case False
    then have "DisposeEmitter i \<in> entry_listener ` set es" using Cons.prems by auto
    then show ?thesis using Cons.IH [of "fire r k as e s"] by simp
  qed
qed

lemma remove_last_snoc: "entry_listener e = l \<Longrightarrow> remove_last l (es @ [e]) = es"
  by (induction es) auto

lemma once_listeners:
  "listeners (once r n l s) r k =
     (if n = k then listeners s r k @ [Once l] else listeners s r k)"
  by (simp add: once_def)

lemma fold_once_listeners:
  "listeners (fold (\<lambda>n. once r n l) ns s) r k =
     listeners s r k @ replicate (count_list ns k) (Once l)"
proof (induction ns arbitrary: s)
  case Nil
  show ?case by simp
next
  case (Cons n ns)
  have "listeners (fold (\<lambda>n. once r n l) (n # ns) s) r k =
        listeners (once r n l s) r k @ replicate (count_list ns k) (Once l)"
    using Cons [of "once r n l s"] by simp
  then show ?case
    by (simp add: once_listeners replicate_app_Cons_same)
qed

lemma fold_once_frame:
  "socket (fold (\<lambda>n. once r n l) ns s) = socket s \<and>
   sent (fold (\<lambda>n. once r n l) ns s) = sent s \<and>
   xhr_requests (fold (\<lambda>n. once r n l) ns s) = xhr_requests s \<and>
   rpcRequestId (fold (\<lambda>n. once r n l) ns s) = rpcRequestId s \<and>
   connect_waits (fold (\<lambda>n. once r n l) ns s) = connect_waits s \<and>
   eventEmitters (fold (\<lambda>n. once r n l) ns s) = eventEmitters s \<and>
   error_log (fold (\<lambda>n. once r n l) ns s) = error_log s \<and>
   emitted (fold (\<lambda>n. once r n l) ns s) = emitted s"
  by (induction ns arbitrary: s) (simp_all add: once_def)
subsection \<open>emit\<close>

lemma emit_returns: "fst (emit r n as s) = Returned () \<longleftrightarrow> \<not> error_event_unhandled s r n"
  by (simp add: emit_def error_event_unhandled_def Let_def)

lemma emit_threw:
  "error_event_unhandled s r n \<Longrightarrow>
   emit r n as s = (Threw UnhandledErrorEvent, s\<lparr>emitted := emitted s @ [(r, n, as)]\<rparr>)"
  by (simp add: emit_def error_event_unhandled_def Let_def)

lemma emit_returned:
  "\<not> error_event_unhandled s r n \<Longrightarrow>
   emit r n as s =
     (Returned (),
      fold (fire r (event_key n) as) (listeners s r (event_key n))
        (s\<lparr>emitted := emitted s @ [(r, n, as)]\<rparr>))"
  by (auto simp add: emit_def error_event_unhandled_def Let_def)

lemma emit_listeners_other: "r' \<noteq> r \<Longrightarrow> listeners (snd (emit r n as s)) r' = listeners s r'"
  by (cases "error_event_unhandled s r n")
     (simp_all add: emit_threw emit_returned fold_fire_listeners_other)

lemma emit_emitted: "emitted (snd (emit r n as s)) = emitted s @ [(r, n, as)]"
proof (cases "error_event_unhandled s r n")
  case True
  then show ?thesis by (simp add: emit_threw)
next
  case False
  show ?thesis
    using fold_fire_same_outside
            [of "s\<lparr>emitted := emitted s @ [(r, n, as)]\<rparr>" r "event_key n" as
                "listeners s r (event_key n)"]
    by (simp add: emit_returned [OF False] same_outside_def)
qed

lemma emit_error_log: "error_log (snd (emit r n as s)) = error_log s"
proof (cases "error_event_unhandled s r n")
  case True
  then show ?thesis by (simp add: emit_threw)
next
  case False
  show ?thesis
    using fold_fire_same_outside
            [of "s\<lparr>emitted := emitted s @ [(r, n, as)]\<rparr>" r "event_key n" as
                "listeners s r (event_key n)"]
    by (simp add: emit_returned [OF False] same_outside_def)
qed

lemma emit_same_core: "same_core s (snd (emit r n as s))"
proof (cases "error_event_unhandled s r n")
  case True
  then show ?thesis by (simp add: emit_threw same_core_def)
next
  case False
  show ?thesis
    using fold_fire_same_outside
            [of "s\<lparr>emitted := emitted s @ [(r, n, as)]\<rparr>" r "event_key n" as
                "listeners s r (event_key n)"]
    by (simp add: emit_returned [OF False] same_outside_def same_core_def)
qed

lemma same_core_trans: "same_core a b \<Longrightarrow> same_core b c \<Longrightarrow> same_core a c"
  by (simp add: same_core_def)

lemma emit_table_None:
  assumes "eventEmitters s i = None \<or>
           DisposeEmitter i \<in> entry_listener ` set (listeners s r (event_key n))"
  shows "eventEmitters (snd (emit r n as s)) i = None \<and>
         (eventEmitters s i \<noteq> None \<longrightarrow> fst (emit r n as s) = Returned ())"
proof (cases "error_event_unhandled s r n")
  case True
  then have "listeners s r (event_key n) = []"
    by (simp add: error_event_unhandled_def event_key_def)
  then show ?thesis using assms True by (simp add: emit_threw)
next
  case False
  show ?thesis
    using assms fold_fire_table_None [of "s\<lparr>emitted := emitted s @ [(r, n, as)]\<rparr>" i
                  "listeners s r (event_key n)" r "event_key n" as]
    by (simp add: emit_returned [OF False])
qed
subsection \<open>The branches of the message handler\<close>

lemma handle_rpc:
  "msg_channel m = Some (SERVICE_FRAMEWORK_RPC_CHANNEL cfg) \<Longrightarrow>
   handleSocketMessage cfg m s =
     (case msg_requestId m of
        None \<Rightarrow> (Threw TypeError, s)
      | Some r \<Rightarrow> emit ServiceFrameworkRpcEmitter (Some (show_int r))
                    [msg_error m, msg_result m] s)"
  unfolding handleSocketMessage_def Let_def by simp

lemma handle_event:
  "msg_channel m \<noteq> Some (SERVICE_FRAMEWORK_RPC_CHANNEL cfg) \<Longrightarrow>
   msg_channel m = Some (SERVICE_FRAMEWORK_EVENT_CHANNEL cfg) \<Longrightarrow>
   handleSocketMessage cfg m s =
     (case msg_event m of
        None \<Rightarrow> (Threw TypeError, s)
      | Some ev \<Rightarrow> emit ServiceFrameworkEventEmitter (ev_name ev) (concat_args (ev_args ev)) s)"
  unfolding handleSocketMessage_def Let_def by simp

lemma handle_sf3:
  "msg_channel m \<noteq> Some (SERVICE_FRAMEWORK_RPC_CHANNEL cfg) \<Longrightarrow>
   msg_channel m \<noteq> Some (SERVICE_FRAMEWORK_EVENT_CHANNEL cfg) \<Longrightarrow>
   msg_channel m = Some (SERVICE_FRAMEWORK3_CHANNEL cfg) \<Longrightarrow>
   handleSocketMessage cfg m s =
     (case msg_requestId m of
        None \<Rightarrow> (Threw TypeError, s)
      | Some r \<Rightarrow> emit ServiceFramework3Emitter (Some (show_int r))
                    [msg_hadError m, msg_error m, msg_result m] s)"
  unfolding handleSocketMessage_def Let_def by simp

lemma handle_generic:
  assumes "\<not> service_channel cfg m" and "stream_id m = None"
  shows "handleSocketMessage cfg m s = emit Eventbus (msg_channel m) [event_js (msg_event m)] s"
  using assms unfolding handleSocketMessage_def Let_def service_channel_def stream_id_def
  by (auto split: option.splits if_splits)

lemma handle_stream_unknown:
  assumes "\<not> service_channel cfg m" and "stream_id m = Some i" and "eventEmitters s i = None"
      and "msg_event m = Some ev"
  shows "handleSocketMessage cfg m s =
           (Returned (), logger_error (EmitterNotFound i (ev_type ev) (ev_args ev)) s)"
  using assms unfolding handleSocketMessage_def Let_def service_channel_def stream_id_def
  by (auto split: option.splits if_splits)

lemma handle_stream_known:
  assumes "\<not> service_channel cfg m" and "stream_id m = Some i" and "eventEmitters s i = Some e"
      and "msg_event m = Some ev"
  shows "handleSocketMessage cfg m s =
           (case emit (StreamEmitter e) (ev_type ev) (concat_args (ev_args ev)) s of
              (Threw x, s') \<Rightarrow> (Threw x, s')
            | (Returned u, s') \<Rightarrow> emit Eventbus (msg_channel m) [event_js (msg_event m)] s')"
  using assms unfolding handleSocketMessage_def Let_def service_channel_def stream_id_def
  by (auto split: option.splits if_splits)

lemma handle_stream_known_threw:
  assumes "\<not> service_channel cfg m" and "stream_id m = Some i" and "eventEmitters s i = Some e"
      and "msg_event m = Some ev"
      and "error_event_unhandled s (StreamEmitter e) (ev_type ev)"
  shows "handleSocketMessage cfg m s =
           (Threw UnhandledErrorEvent,
            s\<lparr>emitted := emitted s @ [(StreamEmitter e, ev_type ev, concat_args (ev_args ev))]\<rparr>)"
  unfolding handle_stream_known [OF assms(1-4)] by (simp add: emit_threw [OF assms(5)])

lemma handle_stream_known_returned:
  assumes "\<not> service_channel cfg m" and "stream_id m = Some i" and "eventEmitters s i = Some e"
      and "msg_event m = Some ev"
      and "\<not> error_event_unhandled s (StreamEmitter e) (ev_type ev)"
  shows "handleSocketMessage cfg m s =
           emit Eventbus (msg_channel m) [event_js (msg_event m)]
             (snd (emit (StreamEmitter e) (ev_type ev) (concat_args (ev_args ev)) s))"
proof -
  let ?em = "emit (StreamEmitter e) (ev_type ev) (concat_args (ev_args ev)) s"
  have "fst ?em = Returned ()" using assms(5) by (simp add: emit_returns)
  then obtain s' where s': "?em = (Returned (), s')" by (cases ?em) auto
  show ?thesis unfolding handle_stream_known [OF assms(1-4)] s' by simp
qed

lemma stream_idI:
  "msg_event m = Some ev \<Longrightarrow> ev_eventEmitterId ev = Some i \<Longrightarrow> i \<noteq> 0 \<Longrightarrow> stream_id m = Some i"
  by (simp add: stream_id_def)

lemma handle_rpc_no_listener:
  assumes "msg_channel m = Some (SERVICE_FRAMEWORK_RPC_CHANNEL cfg)"
      and "msg_requestId m = Some r"
      and "listeners s ServiceFrameworkRpcEmitter (show_int r) = []"
  shows "handleSocketMessage cfg m s =
           (Returned (),
            s\<lparr>emitted := emitted s @
                 [(ServiceFrameworkRpcEmitter, Some (show_int r), [msg_error m, msg_result m])]\<rparr>)"
  using assms show_int_not_error [of r]
  by (simp add: handle_rpc emit_def event_key_def)

lemma handle_rpc_single:
  assumes ch: "msg_channel m = Some (SERVICE_FRAMEWORK_RPC_CHANNEL cfg)"
      and rid: "msg_requestId m = Some r"
      and one: "listeners s ServiceFrameworkRpcEmitter (show_int r) = [Once (RpcSettle p)]"
  shows "handleSocketMessage cfg m s =
    (Returned (),
     if truthy (msg_error m)
     then reject p (Value (msg_error m))
            (removeListener ServiceFrameworkRpcEmitter (show_int r) (RpcSettle p)
               (s\<lparr>emitted := emitted s @
                    [(ServiceFrameworkRpcEmitter, Some (show_int r), [msg_error m, msg_result m])]\<rparr>))
     else resolve p (msg_result m)
            (removeListener ServiceFrameworkRpcEmitter (show_int r) (RpcSettle p)
               (s\<lparr>emitted := emitted s @
                    [(ServiceFrameworkRpcEmitter, Some (show_int r), [msg_error m, msg_result m])]\<rparr>)))"
proof -
  have ne: "\<not> error_event_unhandled s ServiceFrameworkRpcEmitter (Some (show_int r))"
    using show_int_not_error [of r] by (simp add: error_event_unhandled_def)
  show ?thesis
    using one
    by (simp add: handle_rpc [OF ch] rid emit_returned [OF ne] event_key_def arg_value_def Let_def)
qed

lemma handle_same_core: "same_core s (snd (handleSocketMessage cfg m s))"
proof -
  consider (a) "msg_channel m = Some (SERVICE_FRAMEWORK_RPC_CHANNEL cfg)"
    | (b) "msg_channel m \<noteq> Some (SERVICE_FRAMEWORK_RPC_CHANNEL cfg)"
          "msg_channel m = Some (SERVICE_FRAMEWORK_EVENT_CHANNEL cfg)"
    | (c) "msg_channel m \<noteq> Some (SERVICE_FRAMEWORK_RPC_CHANNEL cfg)"
          "msg_channel m \<noteq> Some (SERVICE_FRAMEWORK_EVENT_CHANNEL cfg)"
          "msg_channel m = Some (SERVICE_FRAMEWORK3_CHANNEL cfg)"
    | (d) "\<not> service_channel cfg m"
    unfolding service_channel_def by blast
  then show ?thesis
  proof cases
    case a
    show ?thesis
      by (cases "msg_requestId m") (simp_all add: handle_rpc [OF a] emit_same_core, simp add: same_core_def)
  next
    case b
    show ?thesis
      by (cases "msg_event m") (simp_all add: handle_event [OF b] emit_same_core, simp add: same_core_def)
  next
    case c
    show ?thesis
      by (cases "msg_requestId m") (simp_all add: handle_sf3 [OF c] emit_same_core, simp add: same_core_def)
  next
    case d
    show ?thesis
    proof (cases "stream_id m")
      case None
      then show ?thesis by (simp add: handle_generic [OF d] emit_same_core)
    next
      case (Some i)
      then obtain ev' where ev': "msg_event m = Some ev'"
        by (auto simp: stream_id_def split: option.splits)
      show ?thesis
      proof (cases "eventEmitters s i")
        case None
        then show ?thesis
          by (simp add: handle_stream_unknown [OF d Some None ev'] same_core_def logger_error_def)
      next
        case (Some e)
        let ?em = "emit (StreamEmitter e) (ev_type ev') (concat_args (ev_args ev')) s"
        obtain x s1 where em: "?em = (x, s1)" by (cases ?em) auto
        have c1: "same_core s s1" using emit_same_core [of s "StreamEmitter e"] em
          by (metis snd_conv)
        show ?thesis
        proof (cases x)
          case (Returned u)
          then show ?thesis
            using c1 emit_same_core [of s1 Eventbus "msg_channel m" "[event_js (msg_event m)]"] em
            by (simp add: handle_stream_known [OF d \<open>stream_id m = Some i\<close> Some ev'])
               (rule same_core_trans)
        next
          case (Threw y)
          then show ?thesis using c1 em
            by (simp add: handle_stream_known [OF d \<open>stream_id m = Some i\<close> Some ev'])
        qed
      qed
    qed
  qed
qed
text \<open>A property kept by the building blocks is kept by \<^verbatim>\<open>emit\<close> and by the message handler.\<close>

lemma fold_fire_preserves:
  assumes inv: "\<And>l as s. P s \<Longrightarrow> P (invoke l as s)"
      and rem: "\<And>r k l s. P s \<Longrightarrow> P (removeListener r k l s)"
  shows "P s \<Longrightarrow> P (fold (fire r k as) es s)"
proof (induction es arbitrary: s)
  case Nil
  then show ?case by simp
next
  case (Cons e es)
  have "P (fire r k as e s)"
    using Cons.prems by (cases e) (simp_all add: inv rem)
  then show ?case using Cons.IH by simp
qed

lemma emit_preserves:
  assumes inv: "\<And>l as s. P s \<Longrightarrow> P (invoke l as s)"
      and rem: "\<And>r k l s. P s \<Longrightarrow> P (removeListener r k l s)"
      and rec: "\<And>x s. P s \<Longrightarrow> P (s\<lparr>emitted := x\<rparr>)"
      and P: "P s"
  shows "P (snd (emit r n as s))"
proof (cases "error_event_unhandled s r n")
  case True
  then show ?thesis using rec [OF P] by (simp add: emit_threw)
next
  case False
  show ?thesis
    using fold_fire_preserves [of P, OF inv rem rec [OF P]]
    by (simp add: emit_returned [OF False])
qed

lemma handle_preserves:
  assumes em: "\<And>r n as s. P s \<Longrightarrow> P (snd (emit r n as s))"
      and lg: "\<And>e s. P s \<Longrightarrow> P (logger_error e s)"
      and P: "P s"
  shows "P (snd (handleSocketMessage cfg m s))"
proof -
  consider (a) "msg_channel m = Some (SERVICE_FRAMEWORK_RPC_CHANNEL cfg)"
    | (b) "msg_channel m \<noteq> Some (SERVICE_FRAMEWORK_RPC_CHANNEL cfg)"
          "msg_channel m = Some (SERVICE_FRAMEWORK_EVENT_CHANNEL cfg)"
    | (c) "msg_channel m \<noteq> Some (SERVICE_FRAMEWORK_RPC_CHANNEL cfg)"
          "msg_channel m \<noteq> Some (SERVICE_FRAMEWORK_EVENT_CHANNEL cfg)"
          "msg_channel m = Some (SERVICE_FRAMEWORK3_CHANNEL cfg)"
    | (d) "\<not> service_channel cfg m"
    unfolding service_channel_def by blast
  then show ?thesis
  proof cases
    case a
    show ?thesis using P by (cases "msg_requestId m") (simp_all add: handle_rpc [OF a] em)
  next
    case b
    show ?thesis using P by (cases "msg_event m") (simp_all add: handle_event [OF b] em)
  next
    case c
    show ?thesis using P by (cases "msg_requestId m") (simp_all add: handle_sf3 [OF c] em)
  next
    case d
    show ?thesis
    proof (cases "stream_id m")
      case None
      then show ?thesis using P by (simp add: handle_generic [OF d] em)
    next
      case (Some i)
      then obtain ev' where ev': "msg_event m = Some ev'"
        by (auto simp: stream_id_def split: option.splits)
      show ?thesis
      proof (cases "eventEmitters s i")
        case None
        then show ?thesis using P by (simp add: handle_stream_unknown [OF d Some None ev'] lg)
      next
        case (Some e)
        let ?em = "emit (StreamEmitter e) (ev_type ev') (concat_args (ev_args ev')) s"
        obtain x s1 where eq: "?em = (x, s1)" by (cases ?em) auto
        have P1: "P s1" using em [OF P, of "StreamEmitter e"] eq by (metis snd_conv)
        show ?thesis
          using P1 eq
          by (cases x) (simp_all add: handle_stream_known [OF d \<open>stream_id m = Some i\<close> Some ev'] em)
      qed
    qed
  qed
qed
subsection \<open>Calls, timers, subscriptions\<close>

lemma callSFM_open:
  assumes "socket s = Some sid"
  shows "callServiceFrameworkMethod serviceName methodName methodArgs serviceOptions timeout s =
    (length (promises s),
     s\<lparr>rpcRequestId := (rpcRequestId s + 1),
       sent := sent s @
         [\<lparr>req_serviceName = serviceName, req_methodName = methodName,
           req_methodArgs = methodArgs, req_serviceOptions = serviceOptions,
           req_requestId = rpcRequestId s\<rparr>],
       promises := promises s @ [Pending],
       listeners := (listeners s)
         (ServiceFrameworkRpcEmitter := (listeners s ServiceFrameworkRpcEmitter)
            (show_int (rpcRequestId s) :=
               listeners s ServiceFrameworkRpcEmitter (show_int (rpcRequestId s)) @
               [Once (RpcSettle (length (promises s)))])),
       timers := timers s @
         [\<lparr>tm_requestId = rpcRequestId s, tm_promise = length (promises s),
           tm_timeout = timeout, tm_serviceName = serviceName,
           tm_methodName = methodName\<rparr>]\<rparr>)"
  using assms
  by (simp add: callServiceFrameworkMethod_def Let_def new_promise_def once_def)

lemma callSFM_closed:
  assumes "socket s = None"
  shows "callServiceFrameworkMethod serviceName methodName methodArgs serviceOptions timeout s =
    (length (promises s),
     s\<lparr>rpcRequestId := (rpcRequestId s + 1),
       promises := promises s @ [Rejected (Exception TypeError)]\<rparr>)"
  using assms
  by (simp add: callServiceFrameworkMethod_def Let_def new_promise_def)

lemma callSFM_counter:
  "rpcRequestId (snd (callServiceFrameworkMethod sv me as so t s)) = (rpcRequestId s + 1)"
  by (cases "socket s") (simp_all add: callSFM_open callSFM_closed)

lemma callSFM_closed_wire:
  assumes "socket s = None"
  shows "socket (snd (callServiceFrameworkMethod sv me as so t s)) = None \<and>
         sent (snd (callServiceFrameworkMethod sv me as so t s)) = sent s \<and>
         xhr_requests (snd (callServiceFrameworkMethod sv me as so t s)) = xhr_requests s"
  using assms by (simp add: callSFM_closed)

lemma fireTimer_wire:
  "socket (fireTimer t s) = socket s \<and> sent (fireTimer t s) = sent s \<and>
   xhr_requests (fireTimer t s) = xhr_requests s \<and> rpcRequestId (fireTimer t s) = rpcRequestId s"
  by (simp add: fireTimer_def reject_def removeAllListeners_def)

lemma fireTimer_pending:
  assumes "t \<in> set (timers s)" and "tm_promise t < length (promises s)"
      and "promises s ! tm_promise t = Pending"
  shows "promise_state (fireTimer t s) (tm_promise t) =
           Rejected (Value (JStr (timeout_message (tm_timeout t) (tm_serviceName t) (tm_methodName t))))"
  using assms
  by (simp add: fireTimer_def reject_def removeAllListeners_def promise_state_def)

lemma unsubscribe_counter:
  "rpcRequestId s \<le> rpcRequestId (snd (unsubscribeEventFromServer cfg sv me so s))"
  by (cases "socket s")
     (simp_all add: unsubscribeEventFromServer_def split_beta callSFM_counter)

lemma unsubscribe_closed:
  "socket s = None \<Longrightarrow> unsubscribeEventFromServer cfg sv me so s = (Threw TypeError, s)"
  by (simp add: unsubscribeEventFromServer_def)


lemma subscribe_counter:
  "rpcRequestId s \<le> rpcRequestId (snd (subscribeEventOnServer cfg sv me so s))"
  by (cases "socket s")
     (simp_all add: subscribeEventOnServer_def split_beta callSFM_counter)

lemma register_counter:
  "rpcRequestId s \<le> rpcRequestId (snd (registerEventListener cfg n c so s))"
proof -
  let ?parts = "split_on CHR ''/'' n"
  let ?sv = "case ?parts of [] \<Rightarrow> [] | x # xs \<Rightarrow> x"
  let ?me = "case ?parts of x # y # ys \<Rightarrow> Some y | _ \<Rightarrow> None"
  let ?s1 = "on ServiceFrameworkEventEmitter (getRemoteEventName cfg ?sv ?me so) (Opaque c) s"
  have "rpcRequestId ?s1 = rpcRequestId s" by (simp add: on_def)
  then have le: "rpcRequestId s \<le> rpcRequestId (snd (subscribeEventOnServer cfg ?sv ?me so ?s1))"
    using subscribe_counter [of ?s1 cfg ?sv ?me so] by simp
  obtain x s2 where eq: "subscribeEventOnServer cfg ?sv ?me so ?s1 = (x, s2)"
    by (cases "subscribeEventOnServer cfg ?sv ?me so ?s1") auto
  show ?thesis
    using le eq by (cases x) (simp_all add: registerEventListener_def Let_def)
qed

lemma register_closed:
  assumes "socket s = None"
  shows "socket (snd (registerEventListener cfg n c so s)) = None \<and>
         sent (snd (registerEventListener cfg n c so s)) = sent s \<and>
         xhr_requests (snd (registerEventListener cfg n c so s)) = xhr_requests s"
  using assms
  by (simp add: registerEventListener_def Let_def subscribeEventOnServer_def on_def)

lemma register_open:
  assumes "socket s = Some sid"
  shows "registerEventListener cfg n cb so s =
    (Returned (length (disposables s)),
     s\<lparr>listeners := (listeners s)
          (ServiceFrameworkEventEmitter := (listeners s ServiceFrameworkEventEmitter)
             (remote_name cfg n so := listeners s ServiceFrameworkEventEmitter (remote_name cfg n so) @ [On (Opaque cb)]),
           ServiceFrameworkRpcEmitter := (listeners s ServiceFrameworkRpcEmitter)
             (show_int (rpcRequestId s) :=
                listeners s ServiceFrameworkRpcEmitter (show_int (rpcRequestId s)) @
                [Once (RpcSettle (length (promises s)))])),
       rpcRequestId := (rpcRequestId s + 1),
       sent := sent s @ [subscription_request ''subscribeEvent'' sid n so (rpcRequestId s)],
       promises := promises s @ [Pending],
       timers := timers s @
         [\<lparr>tm_requestId = rpcRequestId s, tm_promise = length (promises s),
           tm_timeout = SERVICE_FRAMEWORK_RPC_TIMEOUT_MS cfg, tm_serviceName = ''serviceFramework'',
           tm_methodName = ''subscribeEvent''\<rparr>],
       disposables := disposables s @
         [\<lparr>d_remoteEventName = remote_name cfg n so, d_callback = cb,
           d_subscribePromise = length (promises s),
           d_serviceName = (case split_on CHR ''/'' n of [] \<Rightarrow> [] | x # xs \<Rightarrow> x),
           d_eventMethodName = (case split_on CHR ''/'' n of x # y # ys \<Rightarrow> Some y | _ \<Rightarrow> None),
           d_serviceOptions = so, d_disposed = False\<rparr>]\<rparr>)"
  using assms
  by (simp add: registerEventListener_def Let_def subscribeEventOnServer_def on_def
        callSFM_open [where sid = sid] remote_name_def subscription_request_def fun_upd_twist)

lemma dispose_wire:
  "socket (dispose i s) = socket s \<and> sent (dispose i s) = sent s \<and>
   xhr_requests (dispose i s) = xhr_requests s \<and> rpcRequestId (dispose i s) = rpcRequestId s"
  by (simp add: dispose_def disposalAction_def then_do_def removeListener_def split: promise.splits)

lemma callMethod_closed:
  assumes "socket s = None"
  shows "socket (snd (callMethod sv me as eo s)) = None \<and>
         sent (snd (callMethod sv me as eo s)) = sent s \<and>
         xhr_requests (snd (callMethod sv me as eo s)) = xhr_requests s"
  using assms by (simp add: callMethod_def new_promise_def logger_error_def)

lemma callMethod_counter: "rpcRequestId (snd (callMethod sv me as eo s)) = rpcRequestId s"
  by (cases "socket s") (simp_all add: callMethod_def new_promise_def logger_error_def)

lemma consume_wire:
  "socket (snd (consumeEventEmitter i ns d s)) = socket s \<and>
   sent (snd (consumeEventEmitter i ns d s)) = sent s \<and>
   xhr_requests (snd (consumeEventEmitter i ns d s)) = xhr_requests s \<and>
   rpcRequestId (snd (consumeEventEmitter i ns d s)) = rpcRequestId s"
  by (simp add: consumeEventEmitter_def Let_def fold_once_frame split: option.splits)

lemma consume_table:
  "eventEmitters (snd (consumeEventEmitter i ns d s)) i = Some (next_emitter s)"
  by (simp add: consumeEventEmitter_def Let_def fold_once_frame split: option.splits)

lemma consume_logs:
  "error_log (snd (consumeEventEmitter i ns d s)) = error_log s \<and>
   emitted (snd (consumeEventEmitter i ns d s)) = emitted s"
  by (simp add: consumeEventEmitter_def Let_def fold_once_frame split: option.splits)

lemma consume_listeners:
  "listeners (snd (consumeEventEmitter i ns d s)) (StreamEmitter (next_emitter s)) k =
     replicate (count_list (case d of None \<Rightarrow> [] | Some ts \<Rightarrow> ts) k) (Once (DisposeEmitter i))"
  by (simp add: consumeEventEmitter_def Let_def fold_once_listeners split: option.splits)

lemma close_wire:
  "socket s = None \<Longrightarrow> close s = (Threw TypeError, s)"
  by (simp add: close_def)
subsection \<open>Microtasks and runs\<close>

lemma fold_reaction_counter:
  "rpcRequestId s \<le> rpcRequestId (fold (run_reaction cfg) rs s)"
proof (induction rs arbitrary: s)
  case Nil
  show ?case by simp
next
  case (Cons f rs)
  obtain sv me so where f: "f = UnsubscribeEvent sv me so" by (cases f)
  have "rpcRequestId s \<le> rpcRequestId (run_reaction cfg f s)"
    by (simp add: f unsubscribe_counter)
  also have "\<dots> \<le> rpcRequestId (fold (run_reaction cfg) rs (run_reaction cfg f s))"
    by (rule Cons)
  finally show ?case by simp
qed

lemma fold_reaction_closed:
  "socket s = None \<Longrightarrow> fold (run_reaction cfg) rs s = s"
proof (induction rs arbitrary: s)
  case Nil
  show ?case by simp
next
  case (Cons f rs)
  obtain sv me so where f: "f = UnsubscribeEvent sv me so" by (cases f)
  have "run_reaction cfg f s = s" using Cons.prems by (simp add: f unsubscribe_closed)
  then show ?case using Cons by simp
qed

lemma run_microtasks_counter: "rpcRequestId s \<le> rpcRequestId (run_microtasks cfg s)"
  using fold_reaction_counter [of "s\<lparr>microtasks := []\<rparr>" cfg "microtasks s"]
  by (simp add: run_microtasks_def)

lemma run_microtasks_closed:
  "socket s = None \<Longrightarrow> run_microtasks cfg s = s\<lparr>microtasks := []\<rparr>"
  by (simp add: run_microtasks_def fold_reaction_closed)


lemma task_closed:
  assumes "socket s = None"
  shows "socket (task cfg a s) = None \<and> sent (task cfg a s) = sent s \<and>
         xhr_requests (task cfg a s) = xhr_requests s"
proof (cases a)
  case (Message m)
  then show ?thesis using assms handle_same_core [of s cfg m] by (simp add: same_core_def)
next
  case (TimerExpired t)
  then show ?thesis using assms by (simp add: fireTimer_wire)
next
  case (CallServiceFrameworkMethod sv me as so t)
  then show ?thesis using assms by (simp add: callSFM_closed_wire)
next
  case NextRequestId
  then show ?thesis using assms by (simp add: nextRequestId_def)
next
  case (RegisterEventListener n c so)
  then show ?thesis using assms by (simp add: register_closed)
next
  case (Dispose i)
  then show ?thesis using assms by (simp add: dispose_wire)
next
  case (CallMethod sv me as eo)
  then show ?thesis using assms by (simp add: callMethod_closed)
next
  case (ConsumeEventEmitter i ns d)
  then show ?thesis using assms by (simp add: consume_wire)
next
  case (Listen r k c)
  then show ?thesis using assms by (simp add: on_def)
next
  case Close
  then show ?thesis using assms by (simp add: close_wire)
qed

lemma step_closed:
  assumes "socket s = None"
  shows "socket (step cfg a s) = None \<and> sent (step cfg a s) = sent s \<and>
         xhr_requests (step cfg a s) = xhr_requests s"
  using task_closed [OF assms, of cfg a]
  by (simp add: step_def run_microtasks_closed)

lemma run_closed:
  "socket s = None \<Longrightarrow>
   socket (run cfg ops s) = None \<and> sent (run cfg ops s) = sent s \<and>
   xhr_requests (run cfg ops s) = xhr_requests s"
  unfolding run_def
proof (induction ops arbitrary: s)
  case Nil
  then show ?case by simp
next
  case (Cons a ops)
  then show ?case using step_closed [of s cfg a] by simp
qed

lemma task_counter: "rpcRequestId s \<le> rpcRequestId (task cfg a s)"
proof (cases a)
  case (Message m)
  then show ?thesis using handle_same_core [of s cfg m] by (simp add: same_core_def)
next
  case (TimerExpired t)
  then show ?thesis by (simp add: fireTimer_wire)
next
  case (CallServiceFrameworkMethod sv me as so t)
  then show ?thesis by (simp add: callSFM_counter)
next
  case NextRequestId
  then show ?thesis by (simp add: nextRequestId_def)
next
  case (RegisterEventListener n c so)
  then show ?thesis by (simp add: register_counter)
next
  case (Dispose i)
  then show ?thesis by (simp add: dispose_wire)
next
  case (CallMethod sv me as eo)
  then show ?thesis by (simp add: callMethod_counter)
next
  case (ConsumeEventEmitter i ns d)
  then show ?thesis by (simp add: consume_wire)
next
  case (Listen r k c)
  then show ?thesis by (simp add: on_def)
next
  case Close
  then show ?thesis by (simp add: close_def split: option.splits)
qed

lemma step_counter: "rpcRequestId s \<le> rpcRequestId (step cfg a s)"
  using task_counter [of s cfg a] run_microtasks_counter [of "task cfg a s" cfg]
  by (simp add: step_def)

lemma run_counter: "rpcRequestId s \<le> rpcRequestId (run cfg ops s)"
  unfolding run_def
proof (induction ops arbitrary: s)
  case Nil
  show ?case by simp
next
  case (Cons a ops)
  have "rpcRequestId s \<le> rpcRequestId (step cfg a s)" by (rule step_counter)
  also have "\<dots> \<le> rpcRequestId (fold (step cfg) ops (step cfg a s))" by (rule Cons)
  finally show ?case by simp
qed
subsection \<open>An invariant of every run\<close>

text \<open>
  In every state reached from the constructor: the counter is positive, no listener is
  registered on the RPC emitter under an id that has not been handed out yet, and the
  promises that pending \<^verbatim>\<open>then\<close> callbacks and disposables refer to exist. Between two
  tasks no microtask is queued.
\<close>

lemma consistentI:
  assumes "1 \<le> rpcRequestId s"
      and "\<And>r. rpcRequestId s \<le> r \<Longrightarrow> listeners s ServiceFrameworkRpcEmitter (show_int r) = []"
      and "\<And>q f. (q, f) \<in> set (reactions s) \<Longrightarrow> q < length (promises s)"
      and "\<And>d. d \<in> set (disposables s) \<Longrightarrow> d_subscribePromise d < length (promises s)"
  shows "consistent s"
  using assms unfolding consistent_def by fastforce

lemma consistentD:
  assumes "consistent s"
  shows "1 \<le> rpcRequestId s"
    and "rpcRequestId s \<le> r \<Longrightarrow> listeners s ServiceFrameworkRpcEmitter (show_int r) = []"
    and "(q, f) \<in> set (reactions s) \<Longrightarrow> q < length (promises s)"
    and "d \<in> set (disposables s) \<Longrightarrow> d_subscribePromise d < length (promises s)"
  using assms unfolding consistent_def by force+

lemma consistent_cong:
  assumes "consistent s"
      and "rpcRequestId s' = rpcRequestId s"
      and "listeners s' ServiceFrameworkRpcEmitter = listeners s ServiceFrameworkRpcEmitter"
      and "reactions s' = reactions s" and "promises s' = promises s"
      and "disposables s' = disposables s"
  shows "consistent s'"
  using assms unfolding consistent_def by simp

lemma consistent_resolve: "consistent s \<Longrightarrow> consistent (resolve p v s)"
proof (cases "p < length (promises s) \<and> promises s ! p = Pending")
  case False
  then have "resolve p v s = s" by (auto simp add: resolve_def)
  moreover assume "consistent s"
  ultimately show ?thesis by simp
next
  case True
  assume c: "consistent s"
  show ?thesis
  proof (rule consistentI)
    show "1 \<le> rpcRequestId (resolve p v s)"
      using consistentD(1) [OF c] True by (simp add: resolve_def)
    show "listeners (resolve p v s) ServiceFrameworkRpcEmitter (show_int r) = []"
      if "rpcRequestId (resolve p v s) \<le> r" for r
      using consistentD(2) [OF c, of r] that True by (simp add: resolve_def)
    show "q < length (promises (resolve p v s))" if "(q, f) \<in> set (reactions (resolve p v s))" for q f
      using consistentD(3) [OF c, of q f] that True by (simp add: resolve_def)
    show "d_subscribePromise d < length (promises (resolve p v s))"
      if "d \<in> set (disposables (resolve p v s))" for d
      using consistentD(4) [OF c, of d] that True by (simp add: resolve_def)
  qed
qed

lemma consistent_reject: "consistent s \<Longrightarrow> consistent (reject p e s)"
proof (cases "p < length (promises s) \<and> promises s ! p = Pending")
  case False
  then have "reject p e s = s" by (auto simp add: reject_def)
  moreover assume "consistent s"
  ultimately show ?thesis by simp
next
  case True
  assume c: "consistent s"
  show ?thesis
  proof (rule consistentI)
    show "1 \<le> rpcRequestId (reject p e s)"
      using consistentD(1) [OF c] True by (simp add: reject_def)
    show "listeners (reject p e s) ServiceFrameworkRpcEmitter (show_int r) = []"
      if "rpcRequestId (reject p e s) \<le> r" for r
      using consistentD(2) [OF c, of r] that True by (simp add: reject_def)
    show "q < length (promises (reject p e s))" if "(q, f) \<in> set (reactions (reject p e s))" for q f
      using consistentD(3) [OF c, of q f] that True by (simp add: reject_def)
    show "d_subscribePromise d < length (promises (reject p e s))"
      if "d \<in> set (disposables (reject p e s))" for d
      using consistentD(4) [OF c, of d] that True by (simp add: reject_def)
  qed
qed

lemma consistent_invoke: "consistent s \<Longrightarrow> consistent (invoke l as s)"
proof (cases l)
  case (RpcSettle p)
  assume "consistent s"
  then show ?thesis using RpcSettle by (simp add: Let_def consistent_resolve consistent_reject)
next
  case (DisposeEmitter i)
  assume "consistent s"
  then show ?thesis using DisposeEmitter by (simp add: consistent_def)
next
  case (Opaque c)
  assume "consistent s"
  then show ?thesis using Opaque by (simp add: consistent_def)
qed

lemma consistent_removeListener: "consistent s \<Longrightarrow> consistent (removeListener r k l s)"
proof -
  assume c: "consistent s"
  show ?thesis
  proof (rule consistentI)
    show "listeners (removeListener r k l s) ServiceFrameworkRpcEmitter (show_int q) = []"
      if "rpcRequestId (removeListener r k l s) \<le> q" for q
    proof -
      have e: "listeners s ServiceFrameworkRpcEmitter (show_int q) = []"
        using consistentD(2) [OF c, of q] that by (simp add: removeListener_def)
      show ?thesis
      proof (cases "r = ServiceFrameworkRpcEmitter \<and> k = show_int q")
        case True
        then show ?thesis using e by (simp add: removeListener_def)
      next
        case False
        then show ?thesis using e by (auto simp add: removeListener_def)
      qed
    qed
  qed (use consistentD [OF c] in \<open>simp_all add: removeListener_def\<close>)
qed

lemma consistent_removeAllListeners: "consistent s \<Longrightarrow> consistent (removeAllListeners r k s)"
  unfolding consistent_def removeAllListeners_def by simp

lemma consistent_emit: "consistent s \<Longrightarrow> consistent (snd (emit r n as s))"
proof (rule emit_preserves [of consistent])
  show "consistent (s'\<lparr>emitted := x\<rparr>)" if "consistent s'" for x s'
    using that by (simp add: consistent_def)
qed (simp_all add: consistent_invoke consistent_removeListener)

lemma consistent_handle: "consistent s \<Longrightarrow> consistent (snd (handleSocketMessage cfg m s))"
proof (rule handle_preserves [of consistent])
  show "consistent (logger_error e s')" if "consistent s'" for e s'
    using that by (simp add: consistent_def logger_error_def)
qed (simp_all add: consistent_emit)

lemma consistent_fireTimer: "consistent s \<Longrightarrow> consistent (fireTimer t s)"
proof -
  assume c: "consistent s"
  have "consistent (s\<lparr>timers := remove1 t (timers s)\<rparr>)"
    using c by (simp add: consistent_def)
  then show ?thesis
    using c by (simp add: fireTimer_def consistent_reject consistent_removeAllListeners)
qed

lemma consistent_callSFM:
  assumes c: "consistent s"
  shows "consistent (snd (callServiceFrameworkMethod sv me as so t s))"
proof (cases "socket s")
  case None
  show ?thesis
  proof (rule consistentI)
    show "1 \<le> rpcRequestId (snd (callServiceFrameworkMethod sv me as so t s))"
      using consistentD(1) [OF c] by (simp add: callSFM_closed [OF None])
    show "listeners (snd (callServiceFrameworkMethod sv me as so t s)) ServiceFrameworkRpcEmitter
            (show_int r) = []"
      if "rpcRequestId (snd (callServiceFrameworkMethod sv me as so t s)) \<le> r" for r
      using consistentD(2) [OF c, of r] that by (simp add: callSFM_closed [OF None])
    show "q < length (promises (snd (callServiceFrameworkMethod sv me as so t s)))"
      if "(q, f) \<in> set (reactions (snd (callServiceFrameworkMethod sv me as so t s)))" for q f
      using consistentD(3) [OF c, of q f] that by (simp add: callSFM_closed [OF None])
    show "d_subscribePromise d < length (promises (snd (callServiceFrameworkMethod sv me as so t s)))"
      if "d \<in> set (disposables (snd (callServiceFrameworkMethod sv me as so t s)))" for d
      using consistentD(4) [OF c, of d] that by (simp add: callSFM_closed [OF None])
  qed
next
  case (Some sid)
  have ne: "show_int r \<noteq> show_int (rpcRequestId s)" if "rpcRequestId s + 1 \<le> r" for r
    using that show_int_inj [of r "rpcRequestId s"] by auto
  show ?thesis
  proof (rule consistentI)
    show "1 \<le> rpcRequestId (snd (callServiceFrameworkMethod sv me as so t s))"
      using consistentD(1) [OF c] by (simp add: callSFM_open [OF Some])
    show "listeners (snd (callServiceFrameworkMethod sv me as so t s)) ServiceFrameworkRpcEmitter
            (show_int r) = []"
      if "rpcRequestId (snd (callServiceFrameworkMethod sv me as so t s)) \<le> r" for r
      using consistentD(2) [OF c, of r] that ne [of r] by (simp add: callSFM_open [OF Some])
    show "q < length (promises (snd (callServiceFrameworkMethod sv me as so t s)))"
      if "(q, f) \<in> set (reactions (snd (callServiceFrameworkMethod sv me as so t s)))" for q f
      using consistentD(3) [OF c, of q f] that by (simp add: callSFM_open [OF Some])
    show "d_subscribePromise d < length (promises (snd (callServiceFrameworkMethod sv me as so t s)))"
      if "d \<in> set (disposables (snd (callServiceFrameworkMethod sv me as so t s)))" for d
      using consistentD(4) [OF c, of d] that by (simp add: callSFM_open [OF Some])
  qed
qed

lemma consistent_nextRequestId: "consistent s \<Longrightarrow> consistent (snd (nextRequestId s))"
  unfolding consistent_def nextRequestId_def by simp

lemma consistent_unsubscribe:
  "consistent s \<Longrightarrow> consistent (snd (unsubscribeEventFromServer cfg sv me so s))"
  by (cases "socket s")
     (simp_all add: unsubscribeEventFromServer_def split_beta consistent_callSFM)

lemma consistent_on:
  "consistent s \<Longrightarrow> r \<noteq> ServiceFrameworkRpcEmitter \<Longrightarrow> consistent (on r k l s)"
  unfolding consistent_def on_def by simp

lemma consistent_register:
  assumes c: "consistent s"
  shows "consistent (snd (registerEventListener cfg n cb so s))"
proof -
  let ?parts = "split_on CHR ''/'' n"
  let ?sv = "case ?parts of [] \<Rightarrow> [] | x # xs \<Rightarrow> x"
  let ?me = "case ?parts of x # y # ys \<Rightarrow> Some y | _ \<Rightarrow> None"
  let ?s1 = "on ServiceFrameworkEventEmitter (getRemoteEventName cfg ?sv ?me so) (Opaque cb) s"
  have c1: "consistent ?s1" using c by (simp add: consistent_on)
  show ?thesis
  proof (cases "socket s")
    case None
    then have "socket ?s1 = None" by (simp add: on_def)
    then show ?thesis using c1
      by (simp add: registerEventListener_def Let_def subscribeEventOnServer_def)
  next
    case (Some sid)
    then have o: "socket ?s1 = Some sid" by (simp add: on_def)
    let ?call = "callServiceFrameworkMethod ''serviceFramework'' ''subscribeEvent''
                   [JStr sid, JStr ?sv, undefined_or_str ?me] so
                   (SERVICE_FRAMEWORK_RPC_TIMEOUT_MS cfg) ?s1"
    have c2: "consistent (snd ?call)" using c1 by (rule consistent_callSFM)
    have p: "fst ?call = length (promises ?s1)" "length (promises (snd ?call)) = Suc (length (promises ?s1))"
      by (simp_all add: callSFM_open [OF o])
    have r: "snd (registerEventListener cfg n cb so s) =
               (snd ?call)\<lparr>disposables := disposables (snd ?call) @
                 [\<lparr>d_remoteEventName = getRemoteEventName cfg ?sv ?me so, d_callback = cb,
                   d_subscribePromise = fst ?call, d_serviceName = ?sv,
                   d_eventMethodName = ?me, d_serviceOptions = so, d_disposed = False\<rparr>]\<rparr>"
      using o by (simp add: registerEventListener_def Let_def subscribeEventOnServer_def split_beta)
    show ?thesis
      unfolding r
    proof (rule consistentI)
      fix d
      assume "d \<in> set (disposables ((snd ?call)\<lparr>disposables := disposables (snd ?call) @
                 [\<lparr>d_remoteEventName = getRemoteEventName cfg ?sv ?me so, d_callback = cb,
                   d_subscribePromise = fst ?call, d_serviceName = ?sv,
                   d_eventMethodName = ?me, d_serviceOptions = so, d_disposed = False\<rparr>]\<rparr>))"
      then have "d \<in> set (disposables (snd ?call)) \<or> d_subscribePromise d = fst ?call" by auto
      then show "d_subscribePromise d < length (promises ((snd ?call)\<lparr>disposables := disposables (snd ?call) @
                 [\<lparr>d_remoteEventName = getRemoteEventName cfg ?sv ?me so, d_callback = cb,
                   d_subscribePromise = fst ?call, d_serviceName = ?sv,
                   d_eventMethodName = ?me, d_serviceOptions = so, d_disposed = False\<rparr>]\<rparr>))"
        using consistentD(4) [OF c2, of d] p by auto
    qed (use consistentD [OF c2] in simp_all)
  qed
qed

lemma then_do_fields:
  "rpcRequestId (then_do p f s) = rpcRequestId s \<and> listeners (then_do p f s) = listeners s \<and>
   promises (then_do p f s) = promises s \<and> disposables (then_do p f s) = disposables s \<and>
   set (reactions (then_do p f s)) \<subseteq> insert (p, f) (set (reactions s))"
  by (cases "promise_state s p") (auto simp add: then_do_def)

lemma consistent_then_do:
  assumes c: "consistent s" and p: "p < length (promises s)"
  shows "consistent (then_do p f s)"
proof (rule consistentI)
  note t = then_do_fields [of p f s]
  show "1 \<le> rpcRequestId (then_do p f s)" using consistentD(1) [OF c] t by simp
  show "listeners (then_do p f s) ServiceFrameworkRpcEmitter (show_int r) = []"
    if "rpcRequestId (then_do p f s) \<le> r" for r
    using consistentD(2) [OF c, of r] that t by simp
  show "q < length (promises (then_do p f s))" if "(q, g) \<in> set (reactions (then_do p f s))" for q g
  proof -
    have "(q, g) = (p, f) \<or> (q, g) \<in> set (reactions s)" using that t by blast
    then show ?thesis using consistentD(3) [OF c, of q g] p t by auto
  qed
  show "d_subscribePromise d < length (promises (then_do p f s))"
    if "d \<in> set (disposables (then_do p f s))" for d
    using consistentD(4) [OF c, of d] that t by simp
qed

lemma consistent_dispose: "consistent s \<Longrightarrow> consistent (dispose i s)"
proof -
  assume c: "consistent s"
  show ?thesis
  proof (cases "i < length (disposables s) \<and> \<not> d_disposed (disposables s ! i)")
    case False
    then have "dispose i s = s" by (auto simp add: dispose_def)
    then show ?thesis using c by simp
  next
    case True
    let ?d = "disposables s ! i"
    let ?s1 = "s\<lparr>disposables := (disposables s)[i := ?d\<lparr>d_disposed := True\<rparr>]\<rparr>"
    have "?d \<in> set (disposables s)" using True by simp
    then have p: "d_subscribePromise ?d < length (promises s)"
      using consistentD(4) [OF c] by simp
    have c1: "consistent ?s1"
    proof (rule consistentI)
      fix d assume "d \<in> set (disposables ?s1)"
      then have "d \<in> insert (?d\<lparr>d_disposed := True\<rparr>) (set (disposables s))"
        using set_update_subset_insert [of "disposables s" i] by auto
      then show "d_subscribePromise d < length (promises ?s1)"
        using consistentD(4) [OF c, of d] p by auto
    qed (use consistentD [OF c] in simp_all)
    have c2: "consistent (removeListener ServiceFrameworkEventEmitter (d_remoteEventName ?d)
                            (Opaque (d_callback ?d)) ?s1)"
      using c1 by (rule consistent_removeListener)
    have "dispose i s =
            then_do (d_subscribePromise ?d)
              (UnsubscribeEvent (d_serviceName ?d) (d_eventMethodName ?d) (d_serviceOptions ?d))
              (removeListener ServiceFrameworkEventEmitter (d_remoteEventName ?d)
                 (Opaque (d_callback ?d)) ?s1)"
      using True by (simp add: dispose_def disposalAction_def)
    then show ?thesis
      using consistent_then_do [OF c2, of "d_subscribePromise ?d"] p
      by (simp add: removeListener_def)
  qed
qed

lemma consistent_new_promise: "consistent s \<Longrightarrow> consistent (snd (new_promise x s))"
proof -
  assume c: "consistent s"
  show ?thesis
  proof (rule consistentI)
    show "q < length (promises (snd (new_promise x s)))"
      if "(q, f) \<in> set (reactions (snd (new_promise x s)))" for q f
      using consistentD(3) [OF c, of q f] that by (simp add: new_promise_def)
    show "d_subscribePromise d < length (promises (snd (new_promise x s)))"
      if "d \<in> set (disposables (snd (new_promise x s)))" for d
      using consistentD(4) [OF c, of d] that by (simp add: new_promise_def)
  qed (use consistentD [OF c] in \<open>simp_all add: new_promise_def\<close>)
qed

lemma consistent_callMethod: "consistent s \<Longrightarrow> consistent (snd (callMethod sv me as eo s))"
proof -
  assume c: "consistent s"
  have "consistent (logger_error e s)" for e
    using c by (simp add: consistent_def logger_error_def)
  moreover have "consistent (s\<lparr>xhr_requests := x\<rparr>)" for x
    using c by (simp add: consistent_def)
  ultimately show ?thesis
    by (cases "socket s") (simp_all add: callMethod_def consistent_new_promise)
qed

lemma fold_once_other:
  "r' \<noteq> r \<Longrightarrow> listeners (fold (\<lambda>n. once r n l) ns s) r' = listeners s r'"
  by (induction ns arbitrary: s) (simp_all add: once_def)

lemma fold_once_rest:
  "promises (fold (\<lambda>n. once r n l) ns s) = promises s \<and>
   reactions (fold (\<lambda>n. once r n l) ns s) = reactions s \<and>
   disposables (fold (\<lambda>n. once r n l) ns s) = disposables s \<and>
   microtasks (fold (\<lambda>n. once r n l) ns s) = microtasks s"
  by (induction ns arbitrary: s) (simp_all add: once_def)

lemma consistent_consume:
  "consistent s \<Longrightarrow> consistent (snd (consumeEventEmitter i ns d s))"
proof -
  assume c: "consistent s"
  let ?s1 = "s\<lparr>next_emitter := Suc (next_emitter s),
               listeners := (listeners s)(StreamEmitter (next_emitter s) := (\<lambda>k. [])),
               eventEmitters := (eventEmitters s)(i \<mapsto> next_emitter s)\<rparr>"
  let ?s2 = "fold (\<lambda>n. once (StreamEmitter (next_emitter s)) n (DisposeEmitter i))
               (case d of None \<Rightarrow> [] | Some ts \<Rightarrow> ts) ?s1"
  have c1: "consistent ?s1" using c by (simp add: consistent_def)
  have c2: "consistent ?s2"
    by (rule consistent_cong [OF c1]) (simp_all add: fold_once_frame fold_once_other fold_once_rest)
  have "consistent (?s2\<lparr>connect_waits := x\<rparr>)" for x
    using c2 by (simp add: consistent_def)
  then show ?thesis using c2
    by (simp add: consumeEventEmitter_def Let_def split: option.splits)
qed

lemma consistent_task: "consistent s \<Longrightarrow> consistent (task cfg a s)"
proof (cases a)
  case (Message m)
  assume "consistent s" then show ?thesis using Message by (simp add: consistent_handle)
next
  case (TimerExpired t)
  assume "consistent s" then show ?thesis using TimerExpired by (simp add: consistent_fireTimer)
next
  case (CallServiceFrameworkMethod sv me as so t)
  assume "consistent s" then show ?thesis
    using CallServiceFrameworkMethod by (simp add: consistent_callSFM)
next
  case NextRequestId
  assume "consistent s" then show ?thesis using NextRequestId by (simp add: consistent_nextRequestId)
next
  case (RegisterEventListener n c so)
  assume "consistent s" then show ?thesis
    using RegisterEventListener by (simp add: consistent_register)
next
  case (Dispose i)
  assume "consistent s" then show ?thesis using Dispose by (simp add: consistent_dispose)
next
  case (CallMethod sv me as eo)
  assume "consistent s" then show ?thesis using CallMethod by (simp add: consistent_callMethod)
next
  case (ConsumeEventEmitter i ns d)
  assume "consistent s" then show ?thesis
    using ConsumeEventEmitter by (simp add: consistent_consume)
next
  case (Listen r k c)
  assume "consistent s" then show ?thesis using Listen by (simp add: consistent_on)
next
  case Close
  assume c: "consistent s"
  have "consistent (s\<lparr>socket_closed := True, socket := None\<rparr>)"
    using c by (simp add: consistent_def)
  then show ?thesis using Close c by (cases "socket s") (simp_all add: close_def)
qed

lemma fold_reaction_consistent:
  "consistent s \<Longrightarrow> microtasks s = [] \<Longrightarrow>
   consistent (fold (run_reaction cfg) rs s) \<and> microtasks (fold (run_reaction cfg) rs s) = []"
proof (induction rs arbitrary: s)
  case Nil
  then show ?case by simp
next
  case (Cons f rs)
  obtain sv me so where f: "f = UnsubscribeEvent sv me so" by (cases f)
  have c: "consistent (run_reaction cfg f s)"
    using Cons.prems by (simp add: f consistent_unsubscribe)
  have m: "microtasks (run_reaction cfg f s) = []"
    using Cons.prems
    by (cases "socket s")
       (simp_all add: f unsubscribeEventFromServer_def split_beta callSFM_open)
  show ?case using Cons.IH [OF c m] by simp
qed

lemma consistent_run_microtasks:
  assumes "consistent s"
  shows "consistent (run_microtasks cfg s) \<and> microtasks (run_microtasks cfg s) = []"
proof -
  have "consistent (s\<lparr>microtasks := []\<rparr>)" using assms by (simp add: consistent_def)
  then show ?thesis
    using fold_reaction_consistent [of "s\<lparr>microtasks := []\<rparr>" cfg "microtasks s"]
    by (simp add: run_microtasks_def)
qed

lemma consistent_step:
  "consistent s \<Longrightarrow> consistent (step cfg a s) \<and> microtasks (step cfg a s) = []"
  by (simp add: step_def consistent_task consistent_run_microtasks)

lemma consistent_run:
  "consistent s \<Longrightarrow> microtasks s = [] \<Longrightarrow>
   consistent (run cfg ops s) \<and> microtasks (run cfg ops s) = []"
  unfolding run_def
proof (induction ops arbitrary: s)
  case Nil
  then show ?case by simp
next
  case (Cons a ops)
  then show ?case using consistent_step [of s cfg a] by simp
qed

lemma consistent_constructor: "consistent (constructor sid) \<and> microtasks (constructor sid) = []"
  by (simp add: consistent_def constructor_def)

lemma reachable_consistent:
  "consistent (run cfg ops (constructor sid)) \<and> microtasks (run cfg ops (constructor sid)) = []"
  using consistent_run consistent_constructor by blast
subsection \<open>The calls in flight\<close>

text \<open>The relations between a state and a later one.\<close>

lemma frame_refl: "frame s s"
  unfolding frame_def by simp

lemma frame_trans: "frame a b \<Longrightarrow> frame b c \<Longrightarrow> frame a c"
  unfolding frame_def by (auto; fastforce)

lemma frame_keeps: "frame s s' \<Longrightarrow> keeps s s'"
  unfolding frame_def keeps_def by simp

lemma keeps_refl: "keeps s s"
  unfolding keeps_def by simp

lemma keeps_trans: "keeps a b \<Longrightarrow> keeps b c \<Longrightarrow> keeps a c"
  unfolding keeps_def by (auto; fastforce)

lemma keeps_affects: "keeps s s' \<Longrightarrow> affects u s s'"
  unfolding keeps_def affects_def by auto

lemma affects_keeps_trans: "affects u a b \<Longrightarrow> keeps b c \<Longrightarrow> affects u a c"
  unfolding keeps_def affects_def by (auto; fastforce)

lemma affects_settles: "affects u s s' \<Longrightarrow> settles s s'"
  unfolding affects_def settles_def by auto

lemma settles_refl: "settles s s"
  unfolding settles_def by simp

lemma settles_trans: "settles a b \<Longrightarrow> settles b c \<Longrightarrow> settles a c"
  unfolding settles_def by (auto; fastforce)

lemma trackedD:
  assumes "tracked s"
  shows "distinct (timers s)"
    and "t \<in> set (timers s) \<Longrightarrow> u \<in> set (timers s) \<Longrightarrow> tm_requestId t = tm_requestId u \<Longrightarrow> t = u"
    and "t \<in> set (timers s) \<Longrightarrow> u \<in> set (timers s) \<Longrightarrow> tm_promise t = tm_promise u \<Longrightarrow> t = u"
    and "t \<in> set (timers s) \<Longrightarrow> tm_requestId t < rpcRequestId s"
    and "t \<in> set (timers s) \<Longrightarrow> tm_promise t < length (promises s)"
    and "t \<in> set (timers s) \<Longrightarrow> promises s ! tm_promise t = Pending \<Longrightarrow>
         listeners s ServiceFrameworkRpcEmitter (show_int (tm_requestId t)) =
           [Once (RpcSettle (tm_promise t))]"
    and "listeners s ServiceFrameworkRpcEmitter k \<noteq> [] \<Longrightarrow>
         \<exists>t \<in> set (timers s). k = show_int (tm_requestId t) \<and>
           listeners s ServiceFrameworkRpcEmitter k = [Once (RpcSettle (tm_promise t))]"
    and "r \<noteq> ServiceFrameworkRpcEmitter \<Longrightarrow> e \<in> set (listeners s r k) \<Longrightarrow> \<not> is_settle e"
  using assms unfolding tracked_def by blast+

lemma trackedI:
  assumes "distinct (timers s)"
    and "\<And>t u. t \<in> set (timers s) \<Longrightarrow> u \<in> set (timers s) \<Longrightarrow>
           tm_requestId t = tm_requestId u \<or> tm_promise t = tm_promise u \<Longrightarrow> t = u"
    and "\<And>t. t \<in> set (timers s) \<Longrightarrow>
           tm_requestId t < rpcRequestId s \<and> tm_promise t < length (promises s)"
    and "\<And>t. t \<in> set (timers s) \<Longrightarrow> promises s ! tm_promise t = Pending \<Longrightarrow>
           listeners s ServiceFrameworkRpcEmitter (show_int (tm_requestId t)) =
             [Once (RpcSettle (tm_promise t))]"
    and "\<And>k. listeners s ServiceFrameworkRpcEmitter k \<noteq> [] \<Longrightarrow>
           \<exists>t \<in> set (timers s). k = show_int (tm_requestId t) \<and>
             listeners s ServiceFrameworkRpcEmitter k = [Once (RpcSettle (tm_promise t))]"
    and "\<And>r k e. r \<noteq> ServiceFrameworkRpcEmitter \<Longrightarrow> e \<in> set (listeners s r k) \<Longrightarrow> \<not> is_settle e"
  shows "tracked s"
  unfolding tracked_def using assms by blast

lemma tracked_frame:
  assumes t: "tracked s" and f: "frame s s'"
  shows "tracked s'"
proof (rule trackedI)
  have tm: "timers s' = timers s" and rq: "rpcRequestId s \<le> rpcRequestId s'"
    and ln: "length (promises s) \<le> length (promises s')"
    and pr: "\<And>i. i < length (promises s) \<Longrightarrow> promises s' ! i = promises s ! i"
    and ls: "listeners s' ServiceFrameworkRpcEmitter = listeners s ServiceFrameworkRpcEmitter"
    and ot: "\<And>r k e. r \<noteq> ServiceFrameworkRpcEmitter \<Longrightarrow> e \<in> set (listeners s' r k) \<Longrightarrow>
               is_settle e \<Longrightarrow> e \<in> set (listeners s r k)"
    using f unfolding frame_def by blast+
  show "distinct (timers s')" using trackedD(1) [OF t] tm by simp
  show "t = u" if "t \<in> set (timers s')" "u \<in> set (timers s')"
    "tm_requestId t = tm_requestId u \<or> tm_promise t = tm_promise u" for t u
    using that trackedD(2,3) [OF t, of t u] tm by auto
  show "tm_requestId t < rpcRequestId s' \<and> tm_promise t < length (promises s')"
    if "t \<in> set (timers s')" for t
    using that trackedD(4,5) [OF t, of t] tm rq ln by auto
  show "listeners s' ServiceFrameworkRpcEmitter (show_int (tm_requestId t)) =
          [Once (RpcSettle (tm_promise t))]"
    if "t \<in> set (timers s')" "promises s' ! tm_promise t = Pending" for t
  proof -
    have "t \<in> set (timers s)" using that tm by simp
    moreover have "promises s ! tm_promise t = Pending"
      using that pr [OF trackedD(5) [OF t \<open>t \<in> set (timers s)\<close>]] by simp
    ultimately show ?thesis using trackedD(6) [OF t] ls by simp
  qed
  show "\<exists>t \<in> set (timers s'). k = show_int (tm_requestId t) \<and>
          listeners s' ServiceFrameworkRpcEmitter k = [Once (RpcSettle (tm_promise t))]"
    if "listeners s' ServiceFrameworkRpcEmitter k \<noteq> []" for k
    using that trackedD(7) [OF t, of k] ls tm by simp
  show "\<not> is_settle e" if "r \<noteq> ServiceFrameworkRpcEmitter" "e \<in> set (listeners s' r k)" for r k e
    using that ot [of r e k] trackedD(8) [OF t, of r e k] by blast
qed

lemma framed:
  assumes "tracked s" and "frame s s'"
  shows "tracked s' \<and> keeps s s'"
  using tracked_frame [OF assms] frame_keeps [OF assms(2)] by simp
text \<open>Emitting on any emitter but the RPC emitter settles no call.\<close>

lemma set_remove_last: "set (remove_last l es) \<subseteq> set es"
  by (induction es) auto

lemma frame_fields:
  assumes "timers s' = timers s" and "rpcRequestId s' = rpcRequestId s"
      and "promises s' = promises s" and "listeners s' = listeners s"
  shows "frame s s'"
  using assms unfolding frame_def by simp

lemma invoke_frame: "\<not> is_settle (On l) \<Longrightarrow> frame s (invoke l as s)"
  by (cases l) (simp_all add: frame_def)

lemma removeListener_frame:
  "r \<noteq> ServiceFrameworkRpcEmitter \<Longrightarrow> frame s (removeListener r k l s)"
  using set_remove_last [of l "listeners s r k"]
  unfolding frame_def removeListener_def by auto

lemma fire_frame:
  assumes "r \<noteq> ServiceFrameworkRpcEmitter" and "\<not> is_settle e"
  shows "frame s (fire r k as e s)"
proof (cases e)
  case (On l)
  then show ?thesis using assms invoke_frame [of l s as] by simp
next
  case (Once l)
  have "frame s (removeListener r k l s)" using assms(1) by (rule removeListener_frame)
  moreover have "frame (removeListener r k l s) (invoke l as (removeListener r k l s))"
    using assms(2) Once invoke_frame [of l] by simp
  ultimately show ?thesis using Once frame_trans by simp
qed

lemma fold_fire_frame:
  assumes "r \<noteq> ServiceFrameworkRpcEmitter"
  shows "\<forall>e \<in> set es. \<not> is_settle e \<Longrightarrow> frame s (fold (fire r k as) es s)"
proof (induction es arbitrary: s)
  case Nil
  then show ?case by (simp add: frame_refl)
next
  case (Cons e es)
  have "frame s (fire r k as e s)" using Cons.prems assms by (simp add: fire_frame)
  moreover have "frame (fire r k as e s) (fold (fire r k as) es (fire r k as e s))"
    using Cons.IH Cons.prems by simp
  ultimately show ?case using frame_trans by simp
qed

lemma emit_frame:
  assumes t: "tracked s" and r: "r \<noteq> ServiceFrameworkRpcEmitter"
  shows "frame s (snd (emit r n as s))"
proof (cases "error_event_unhandled s r n")
  case True
  then show ?thesis by (simp add: emit_threw frame_def)
next
  case False
  let ?s0 = "s\<lparr>emitted := emitted s @ [(r, n, as)]\<rparr>"
  have a: "frame s ?s0" by (simp add: frame_def)
  have "\<forall>e \<in> set (listeners s r (event_key n)). \<not> is_settle e"
    using trackedD(8) [OF t r] by blast
  then have "frame ?s0 (fold (fire r (event_key n) as) (listeners s r (event_key n)) ?s0)"
    using fold_fire_frame [OF r] by blast
  then show ?thesis using a frame_trans by (simp add: emit_returned [OF False])
qed

lemma logger_error_frame: "frame s (logger_error e s)"
  by (simp add: frame_def logger_error_def)

lemma handle_frame_rpc:
  assumes a: "msg_channel m = Some (SERVICE_FRAMEWORK_RPC_CHANNEL cfg)"
      and q: "msg_requestId m = None \<or>
              (\<exists>r. msg_requestId m = Some r \<and> listeners s ServiceFrameworkRpcEmitter (show_int r) = [])"
  shows "frame s (snd (handleSocketMessage cfg m s))"
proof (cases "msg_requestId m")
  case None
  then show ?thesis by (simp add: handle_rpc [OF a] frame_refl)
next
  case (Some r)
  then have e: "listeners s ServiceFrameworkRpcEmitter (show_int r) = []" using q by simp
  show ?thesis
    unfolding handle_rpc_no_listener [OF a Some e] by (simp add: frame_def)
qed

lemma handle_frame_event:
  assumes t: "tracked s"
      and b: "msg_channel m \<noteq> Some (SERVICE_FRAMEWORK_RPC_CHANNEL cfg)"
          "msg_channel m = Some (SERVICE_FRAMEWORK_EVENT_CHANNEL cfg)"
  shows "frame s (snd (handleSocketMessage cfg m s))"
proof (cases "msg_event m")
  case None
  then show ?thesis by (simp add: handle_event [OF b] frame_refl)
next
  case (Some ev)
  have "frame s (snd (emit ServiceFrameworkEventEmitter (ev_name ev) (concat_args (ev_args ev)) s))"
    by (rule emit_frame [OF t]) simp
  then show ?thesis using Some by (simp add: handle_event [OF b])
qed

lemma handle_frame_sf3:
  assumes t: "tracked s"
      and c: "msg_channel m \<noteq> Some (SERVICE_FRAMEWORK_RPC_CHANNEL cfg)"
          "msg_channel m \<noteq> Some (SERVICE_FRAMEWORK_EVENT_CHANNEL cfg)"
          "msg_channel m = Some (SERVICE_FRAMEWORK3_CHANNEL cfg)"
  shows "frame s (snd (handleSocketMessage cfg m s))"
proof (cases "msg_requestId m")
  case None
  then show ?thesis by (simp add: handle_sf3 [OF c] frame_refl)
next
  case (Some r)
  have "frame s (snd (emit ServiceFramework3Emitter (Some (show_int r))
                   [msg_hadError m, msg_error m, msg_result m] s))"
    by (rule emit_frame [OF t]) simp
  then show ?thesis using Some by (simp add: handle_sf3 [OF c])
qed

lemma handle_frame_other:
  assumes t: "tracked s" and d: "\<not> service_channel cfg m"
  shows "frame s (snd (handleSocketMessage cfg m s))"
proof (cases "stream_id m")
  case None
  have "frame s (snd (emit Eventbus (msg_channel m) [event_js (msg_event m)] s))"
    by (rule emit_frame [OF t]) simp
  then show ?thesis using None by (simp add: handle_generic [OF d])
next
  case (Some i)
  then obtain ev' where ev': "msg_event m = Some ev'"
    by (auto simp: stream_id_def split: option.splits)
  show ?thesis
  proof (cases "eventEmitters s i")
    case None
    show ?thesis
      unfolding handle_stream_unknown [OF d Some None ev'] by (simp add: logger_error_frame)
  next
    case (Some e)
    let ?em = "emit (StreamEmitter e) (ev_type ev') (concat_args (ev_args ev')) s"
    obtain x s1 where eq: "?em = (x, s1)" by (cases ?em) auto
    have "frame s (snd ?em)" by (rule emit_frame [OF t]) simp
    then have f1: "frame s s1" using eq by simp
    have t1: "tracked s1" using tracked_frame [OF t f1] .
    have f2: "frame s1 (snd (emit Eventbus (msg_channel m) [event_js (msg_event m)] s1))"
      by (rule emit_frame [OF t1]) simp
    have f3: "frame s (snd (emit Eventbus (msg_channel m) [event_js (msg_event m)] s1))"
      using frame_trans [OF f1 f2] .
    show ?thesis
      unfolding handle_stream_known [OF d \<open>stream_id m = Some i\<close> Some ev'] eq
      using f1 f3 by (cases x) simp_all
  qed
qed

lemma handle_frame:
  assumes t: "tracked s"
      and q: "msg_channel m = Some (SERVICE_FRAMEWORK_RPC_CHANNEL cfg) \<Longrightarrow>
              msg_requestId m = None \<or>
              (\<exists>r. msg_requestId m = Some r \<and> listeners s ServiceFrameworkRpcEmitter (show_int r) = [])"
  shows "frame s (snd (handleSocketMessage cfg m s))"
proof -
  consider (a) "msg_channel m = Some (SERVICE_FRAMEWORK_RPC_CHANNEL cfg)"
    | (b) "msg_channel m \<noteq> Some (SERVICE_FRAMEWORK_RPC_CHANNEL cfg)"
          "msg_channel m = Some (SERVICE_FRAMEWORK_EVENT_CHANNEL cfg)"
    | (c) "msg_channel m \<noteq> Some (SERVICE_FRAMEWORK_RPC_CHANNEL cfg)"
          "msg_channel m \<noteq> Some (SERVICE_FRAMEWORK_EVENT_CHANNEL cfg)"
          "msg_channel m = Some (SERVICE_FRAMEWORK3_CHANNEL cfg)"
    | (d) "\<not> service_channel cfg m"
    unfolding service_channel_def by blast
  then show ?thesis
  proof cases
    case a
    show ?thesis using handle_frame_rpc [OF a q [OF a]] .
  next
    case b
    show ?thesis using handle_frame_event [OF t b] .
  next
    case c
    show ?thesis using handle_frame_sf3 [OF t c] .
  next
    case d
    show ?thesis using handle_frame_other [OF t d] .
  qed
qed
text \<open>The response to a call and the expiry of its timer settle that call and no other.\<close>

lemma resolve_fields:
  "timers (resolve p v s) = timers s \<and> rpcRequestId (resolve p v s) = rpcRequestId s \<and>
   listeners (resolve p v s) = listeners s \<and>
   length (promises (resolve p v s)) = length (promises s) \<and>
   (\<forall>i. i \<noteq> p \<or> promises s ! i \<noteq> Pending \<longrightarrow> promises (resolve p v s) ! i = promises s ! i) \<and>
   (p < length (promises s) \<longrightarrow> promises (resolve p v s) ! p \<noteq> Pending)"
  by (simp add: resolve_def)

lemma reject_fields:
  "timers (reject p e s) = timers s \<and> rpcRequestId (reject p e s) = rpcRequestId s \<and>
   listeners (reject p e s) = listeners s \<and>
   length (promises (reject p e s)) = length (promises s) \<and>
   (\<forall>i. i \<noteq> p \<or> promises s ! i \<noteq> Pending \<longrightarrow> promises (reject p e s) ! i = promises s ! i) \<and>
   (p < length (promises s) \<longrightarrow> promises (reject p e s) ! p \<noteq> Pending)"
  by (simp add: reject_def)

lemma tracked_fresh_key:
  assumes t: "tracked s" and r: "rpcRequestId s \<le> r"
  shows "listeners s ServiceFrameworkRpcEmitter (show_int r) = []"
proof (rule ccontr)
  assume "listeners s ServiceFrameworkRpcEmitter (show_int r) \<noteq> []"
  then obtain u where u: "u \<in> set (timers s)" "show_int r = show_int (tm_requestId u)"
    using trackedD(7) [OF t] by blast
  then have "r = tm_requestId u" using show_int_inj by blast
  then show False using trackedD(4) [OF t u(1)] r by simp
qed

lemma tracked_key:
  assumes t: "tracked s" and u: "u \<in> set (timers s)"
  shows "listeners s ServiceFrameworkRpcEmitter (show_int (tm_requestId u)) = [] \<or>
         listeners s ServiceFrameworkRpcEmitter (show_int (tm_requestId u)) =
           [Once (RpcSettle (tm_promise u))]"
proof (cases "listeners s ServiceFrameworkRpcEmitter (show_int (tm_requestId u)) = []")
  case True
  then show ?thesis by simp
next
  case False
  then obtain v where v: "v \<in> set (timers s)"
      "show_int (tm_requestId u) = show_int (tm_requestId v)"
      "listeners s ServiceFrameworkRpcEmitter (show_int (tm_requestId u)) =
         [Once (RpcSettle (tm_promise v))]"
    using trackedD(7) [OF t] by blast
  have "tm_requestId u = tm_requestId v" using v(2) show_int_inj by blast
  then have "u = v" using trackedD(2) [OF t u v(1)] by simp
  then show ?thesis using v(3) by simp
qed

lemma tracked_settle:
  assumes t: "tracked s" and u: "u \<in> set (timers s)"
      and tm: "set (timers s') \<subseteq> set (timers s)"
      and tm2: "\<And>v. v \<in> set (timers s) \<Longrightarrow> v \<noteq> u \<Longrightarrow> v \<in> set (timers s')"
      and ds: "distinct (timers s')"
      and rq: "rpcRequestId s' = rpcRequestId s"
      and ln: "length (promises s') = length (promises s)"
      and pr: "\<And>i. i \<noteq> tm_promise u \<Longrightarrow> promises s' ! i = promises s ! i"
      and pu: "promises s' ! tm_promise u \<noteq> Pending"
      and ls: "listeners s' =
                 (listeners s)(ServiceFrameworkRpcEmitter :=
                    (listeners s ServiceFrameworkRpcEmitter)(show_int (tm_requestId u) := []))"
  shows "tracked s'"
proof (rule trackedI)
  show "distinct (timers s')" by (rule ds)
  show "v = w" if "v \<in> set (timers s')" "w \<in> set (timers s')"
    "tm_requestId v = tm_requestId w \<or> tm_promise v = tm_promise w" for v w
    using that trackedD(2,3) [OF t, of v w] tm by auto
  show "tm_requestId v < rpcRequestId s' \<and> tm_promise v < length (promises s')"
    if "v \<in> set (timers s')" for v
    using that trackedD(4,5) [OF t, of v] tm rq ln by auto
  show "listeners s' ServiceFrameworkRpcEmitter (show_int (tm_requestId v)) =
          [Once (RpcSettle (tm_promise v))]"
    if "v \<in> set (timers s')" "promises s' ! tm_promise v = Pending" for v
  proof -
    have vs: "v \<in> set (timers s)" using that tm by auto
    have vu: "tm_promise v \<noteq> tm_promise u" using that pu by auto
    then have "v \<noteq> u" by auto
    then have "tm_requestId v \<noteq> tm_requestId u" using trackedD(2) [OF t vs u] by auto
    then have k: "show_int (tm_requestId v) \<noteq> show_int (tm_requestId u)"
      using show_int_inj by blast
    have "promises s ! tm_promise v = Pending" using that pr [OF vu] by simp
    then show ?thesis using trackedD(6) [OF t vs] k ls by simp
  qed
  show "\<exists>v \<in> set (timers s'). k = show_int (tm_requestId v) \<and>
          listeners s' ServiceFrameworkRpcEmitter k = [Once (RpcSettle (tm_promise v))]"
    if "listeners s' ServiceFrameworkRpcEmitter k \<noteq> []" for k
  proof -
    have k: "k \<noteq> show_int (tm_requestId u)" using that ls by auto
    then have same: "listeners s' ServiceFrameworkRpcEmitter k = listeners s ServiceFrameworkRpcEmitter k"
      using ls by simp
    have ne: "listeners s ServiceFrameworkRpcEmitter k \<noteq> []" using that same by simp
    obtain v where v: "v \<in> set (timers s)" "k = show_int (tm_requestId v)"
        "listeners s ServiceFrameworkRpcEmitter k = [Once (RpcSettle (tm_promise v))]"
      using trackedD(7) [OF t ne] by blast
    have "v \<noteq> u" using v(2) k by auto
    then have "v \<in> set (timers s')" using tm2 [OF v(1)] by simp
    then show ?thesis using v same by auto
  qed
  show "\<not> is_settle e" if "r \<noteq> ServiceFrameworkRpcEmitter" "e \<in> set (listeners s' r k)" for r k e
    using that trackedD(8) [OF t, of r e k] ls by simp
qed

lemma settle_step:
  assumes t: "tracked s" and u: "u \<in> set (timers s)"
      and tm: "timers s' = timers s"
      and rq: "rpcRequestId s' = rpcRequestId s"
      and ls: "listeners s' =
                 (listeners s)(ServiceFrameworkRpcEmitter :=
                    (listeners s ServiceFrameworkRpcEmitter)(show_int (tm_requestId u) := []))"
      and ln: "length (promises s') = length (promises s)"
      and pr: "\<And>i. i \<noteq> tm_promise u \<or> promises s ! i \<noteq> Pending \<Longrightarrow> promises s' ! i = promises s ! i"
      and pu: "promises s' ! tm_promise u \<noteq> Pending"
  shows "tracked s' \<and> affects u s s'"
proof
  show "tracked s'"
  proof (rule tracked_settle [OF t u _ _ _ rq ln _ pu ls])
    show "set (timers s') \<subseteq> set (timers s)" using tm by simp
    show "\<And>v. v \<in> set (timers s) \<Longrightarrow> v \<noteq> u \<Longrightarrow> v \<in> set (timers s')" using tm by simp
    show "distinct (timers s')" using tm trackedD(1) [OF t] by simp
    show "\<And>i. i \<noteq> tm_promise u \<Longrightarrow> promises s' ! i = promises s ! i" using pr by simp
  qed
  show "affects u s s'"
    unfolding affects_def using tm rq ln pr by simp
qed

lemma handle_rpc_hit:
  assumes t: "tracked s" and u: "u \<in> set (timers s)"
      and ch: "msg_channel m = Some (SERVICE_FRAMEWORK_RPC_CHANNEL cfg)"
      and rid: "msg_requestId m = Some (tm_requestId u)"
  shows "tracked (snd (handleSocketMessage cfg m s)) \<and> affects u s (snd (handleSocketMessage cfg m s))"
proof -
  let ?k = "show_int (tm_requestId u)"
  let ?p = "tm_promise u"
  consider (none) "listeners s ServiceFrameworkRpcEmitter ?k = []"
    | (one) "listeners s ServiceFrameworkRpcEmitter ?k = [Once (RpcSettle ?p)]"
    using tracked_key [OF t u] by blast
  then show ?thesis
  proof cases
    case none
    have f: "frame s (snd (handleSocketMessage cfg m s))"
      using handle_frame_rpc [OF ch] rid none by simp
    show ?thesis using tracked_frame [OF t f] keeps_affects [OF frame_keeps [OF f]] by simp
  next
    case one
    let ?s0 = "removeListener ServiceFrameworkRpcEmitter ?k (RpcSettle ?p)
                 (s\<lparr>emitted := emitted s @
                      [(ServiceFrameworkRpcEmitter, Some ?k, [msg_error m, msg_result m])]\<rparr>)"
    have pl: "?p < length (promises s)" using trackedD(5) [OF t u] .
    have s0: "timers ?s0 = timers s" "rpcRequestId ?s0 = rpcRequestId s" "promises ?s0 = promises s"
      "listeners ?s0 = (listeners s)(ServiceFrameworkRpcEmitter :=
                    (listeners s ServiceFrameworkRpcEmitter)(?k := []))"
      using one by (simp_all add: removeListener_def)
    have a: "tracked (resolve ?p v ?s0) \<and> affects u s (resolve ?p v ?s0)" for v
      using resolve_fields [of ?p v ?s0] s0 pl
      by (intro settle_step [OF t u]) simp_all
    have b: "tracked (reject ?p e ?s0) \<and> affects u s (reject ?p e ?s0)" for e
      using reject_fields [of ?p e ?s0] s0 pl
      by (intro settle_step [OF t u]) simp_all
    show ?thesis
      unfolding handle_rpc_single [OF ch rid one] using a b by simp
  qed
qed

lemma fireTimer_miss: "u \<notin> set (timers s) \<Longrightarrow> fireTimer u s = s"
  by (simp add: fireTimer_def)

lemma fireTimer_hit:
  assumes t: "tracked s" and u: "u \<in> set (timers s)"
  shows "tracked (fireTimer u s) \<and> affects u s (fireTimer u s) \<and> u \<notin> set (timers (fireTimer u s))"
proof -
  let ?k = "show_int (tm_requestId u)"
  let ?p = "tm_promise u"
  let ?e = "Value (JStr (timeout_message (tm_timeout u) (tm_serviceName u) (tm_methodName u)))"
  let ?s0 = "removeAllListeners ServiceFrameworkRpcEmitter ?k (s\<lparr>timers := remove1 u (timers s)\<rparr>)"
  have eq: "fireTimer u s = reject ?p ?e ?s0" using u by (simp add: fireTimer_def)
  have pl: "?p < length (promises s)" using trackedD(5) [OF t u] .
  have d: "distinct (timers s)" using trackedD(1) [OF t] .
  have s0: "timers ?s0 = remove1 u (timers s)" "rpcRequestId ?s0 = rpcRequestId s"
      "promises ?s0 = promises s"
      "listeners ?s0 = (listeners s)(ServiceFrameworkRpcEmitter :=
                    (listeners s ServiceFrameworkRpcEmitter)(?k := []))"
    by (simp_all add: removeAllListeners_def)
  note rf = reject_fields [of ?p ?e ?s0]
  have tm: "timers (reject ?p ?e ?s0) = remove1 u (timers s)" using rf s0 by simp
  have 1: "tracked (reject ?p ?e ?s0)"
  proof (rule tracked_settle [OF t u])
    show "set (timers (reject ?p ?e ?s0)) \<subseteq> set (timers s)" using tm set_remove1_subset by simp
    show "\<And>v. v \<in> set (timers s) \<Longrightarrow> v \<noteq> u \<Longrightarrow> v \<in> set (timers (reject ?p ?e ?s0))"
      using tm by simp
    show "distinct (timers (reject ?p ?e ?s0))" using tm d by simp
    show "rpcRequestId (reject ?p ?e ?s0) = rpcRequestId s" using rf s0 by simp
    show "length (promises (reject ?p ?e ?s0)) = length (promises s)" using rf s0 by simp
    show "\<And>i. i \<noteq> ?p \<Longrightarrow> promises (reject ?p ?e ?s0) ! i = promises s ! i" using rf s0 by simp
    show "promises (reject ?p ?e ?s0) ! ?p \<noteq> Pending" using rf s0 pl by simp
    show "listeners (reject ?p ?e ?s0) = (listeners s)(ServiceFrameworkRpcEmitter :=
                    (listeners s ServiceFrameworkRpcEmitter)(?k := []))"
      using rf s0 by simp
  qed
  have st: "set (timers (reject ?p ?e ?s0)) = set (timers s) - {u}"
    using tm set_remove1_eq [OF d] by simp
  have a1: "\<forall>v \<in> set (timers s). v \<noteq> u \<longrightarrow> v \<in> set (timers (reject ?p ?e ?s0))"
    using st by simp
  have a2: "\<forall>v \<in> set (timers (reject ?p ?e ?s0)). v \<in> set (timers s) \<or> rpcRequestId s \<le> tm_requestId v"
    using st by simp
  have a3: "rpcRequestId s \<le> rpcRequestId (reject ?p ?e ?s0)" using rf s0 by simp
  have a4: "length (promises s) \<le> length (promises (reject ?p ?e ?s0))" using rf s0 by simp
  have a5: "\<forall>i<length (promises s). i \<noteq> tm_promise u \<or> promises s ! i \<noteq> Pending \<longrightarrow>
              promises (reject ?p ?e ?s0) ! i = promises s ! i"
    using rf s0 by simp
  have 2: "affects u s (reject ?p ?e ?s0)"
    unfolding affects_def using a1 a2 a3 a4 a5 by blast
  have 3: "u \<notin> set (timers (reject ?p ?e ?s0))" using tm d by simp
  show ?thesis using 1 2 3 eq by simp
qed
text \<open>A new call is tracked; the other methods leave the calls alone.\<close>

lemma callSFM_tracked:
  assumes t: "tracked s"
  shows "tracked (snd (callServiceFrameworkMethod sv me as so tmo s)) \<and>
         keeps s (snd (callServiceFrameworkMethod sv me as so tmo s))"
proof (cases "socket s")
  case None
  have f: "frame s (snd (callServiceFrameworkMethod sv me as so tmo s))"
    unfolding callSFM_closed [OF None] by (simp add: frame_def nth_append)
  show ?thesis using tracked_frame [OF t f] frame_keeps [OF f] by simp
next
  case (Some sid)
  let ?r = "rpcRequestId s"
  let ?p = "length (promises s)"
  let ?u = "\<lparr>tm_requestId = ?r, tm_promise = ?p, tm_timeout = tmo, tm_serviceName = sv,
             tm_methodName = me\<rparr>"
  let ?s' = "snd (callServiceFrameworkMethod sv me as so tmo s)"
  have fresh: "listeners s ServiceFrameworkRpcEmitter (show_int ?r) = []"
    using tracked_fresh_key [OF t] by simp
  have f: "timers ?s' = timers s @ [?u]" "rpcRequestId ?s' = ?r + 1"
      "promises ?s' = promises s @ [Pending]"
      "listeners ?s' = (listeners s)(ServiceFrameworkRpcEmitter :=
          (listeners s ServiceFrameworkRpcEmitter)(show_int ?r := [Once (RpcSettle ?p)]))"
    using fresh by (simp_all add: callSFM_open [OF Some])
  have old: "tm_requestId v < ?r \<and> tm_promise v < ?p" if "v \<in> set (timers s)" for v
    using trackedD(4,5) [OF t that] by simp
  have new: "?u \<notin> set (timers s)" using old [of ?u] by auto
  have key: "show_int (tm_requestId v) \<noteq> show_int ?r" if "v \<in> set (timers s)" for v
    using old [OF that] show_int_inj [of "tm_requestId v" ?r] by auto
  have 1: "tracked ?s'"
  proof (rule trackedI)
    show "distinct (timers ?s')" using f(1) trackedD(1) [OF t] new by simp
    show "v = w" if "v \<in> set (timers ?s')" "w \<in> set (timers ?s')"
      "tm_requestId v = tm_requestId w \<or> tm_promise v = tm_promise w" for v w
    proof -
      have "v \<in> set (timers s) \<or> v = ?u" "w \<in> set (timers s) \<or> w = ?u"
        using that(1,2) f(1) by auto
      then consider "v \<in> set (timers s)" "w \<in> set (timers s)" | "v = ?u" "w = ?u"
        | "v \<in> set (timers s)" "w = ?u" | "v = ?u" "w \<in> set (timers s)"
        by blast
      then show ?thesis
      proof cases
        case 1 then show ?thesis using that(3) trackedD(2,3) [OF t, of v w] by auto
      next
        case 2 then show ?thesis by simp
      next
        case 3 then show ?thesis using that(3) old [of v] by auto
      next
        case 4 then show ?thesis using that(3) old [of w] by auto
      qed
    qed
    show "tm_requestId v < rpcRequestId ?s' \<and> tm_promise v < length (promises ?s')"
      if "v \<in> set (timers ?s')" for v
      using that f old [of v] by auto
    show "listeners ?s' ServiceFrameworkRpcEmitter (show_int (tm_requestId v)) =
            [Once (RpcSettle (tm_promise v))]"
      if "v \<in> set (timers ?s')" "promises ?s' ! tm_promise v = Pending" for v
    proof (cases "v = ?u")
      case True
      then show ?thesis using f(4) by simp
    next
      case False
      then have vs: "v \<in> set (timers s)" using that(1) f(1) by simp
      have "promises s ! tm_promise v = Pending"
        using that(2) f(3) old [OF vs] by (simp add: nth_append)
      then show ?thesis using trackedD(6) [OF t vs] key [OF vs] f(4) by simp
    qed
    show "\<exists>v \<in> set (timers ?s'). k = show_int (tm_requestId v) \<and>
            listeners ?s' ServiceFrameworkRpcEmitter k = [Once (RpcSettle (tm_promise v))]"
      if "listeners ?s' ServiceFrameworkRpcEmitter k \<noteq> []" for k
    proof (cases "k = show_int ?r")
      case True
      have "?u \<in> set (timers ?s')" using f(1) by simp
      moreover have "listeners ?s' ServiceFrameworkRpcEmitter k = [Once (RpcSettle (tm_promise ?u))]"
        using True f(4) by simp
      ultimately show ?thesis using True by (intro bexI [of _ ?u]) simp_all
    next
      case False
      then have same: "listeners ?s' ServiceFrameworkRpcEmitter k = listeners s ServiceFrameworkRpcEmitter k"
        using f(4) by simp
      have ne: "listeners s ServiceFrameworkRpcEmitter k \<noteq> []" using that same by simp
      obtain v where v: "v \<in> set (timers s)" "k = show_int (tm_requestId v)"
          "listeners s ServiceFrameworkRpcEmitter k = [Once (RpcSettle (tm_promise v))]"
        using trackedD(7) [OF t ne] by blast
      have "v \<in> set (timers ?s')" using v(1) f(1) by simp
      then show ?thesis using v same by auto
    qed
    show "\<not> is_settle e" if "r \<noteq> ServiceFrameworkRpcEmitter" "e \<in> set (listeners ?s' r k)" for r k e
      using that trackedD(8) [OF t, of r e k] f(4) by simp
  qed
  have 2: "keeps s ?s'"
    unfolding keeps_def using f by (auto simp add: nth_append)
  show ?thesis using 1 2 by simp
qed

lemma nextRequestId_frame: "frame s (snd (nextRequestId s))"
  by (simp add: nextRequestId_def frame_def)

lemma on_frame:
  "r \<noteq> ServiceFrameworkRpcEmitter \<Longrightarrow> \<not> is_settle (On l) \<Longrightarrow> frame s (on r k l s)"
  unfolding frame_def on_def by auto

lemma once_frame:
  "r \<noteq> ServiceFrameworkRpcEmitter \<Longrightarrow> \<not> is_settle (Once l) \<Longrightarrow> frame s (once r k l s)"
  unfolding frame_def once_def by auto

lemma fold_once_frame2:
  assumes "r \<noteq> ServiceFrameworkRpcEmitter" and "\<not> is_settle (Once l)"
  shows "frame s (fold (\<lambda>n. once r n l) ns s)"
proof (induction ns arbitrary: s)
  case Nil
  then show ?case by (simp add: frame_refl)
next
  case (Cons n ns)
  have "frame s (once r n l s)" using assms by (rule once_frame)
  moreover have "frame (once r n l s) (fold (\<lambda>n. once r n l) ns (once r n l s))" by (rule Cons.IH)
  ultimately show ?case using frame_trans by simp
qed

lemma then_do_frame: "frame s (then_do p f s)"
  unfolding then_do_def by (cases "promise_state s p") (simp_all add: frame_def)

lemma dispose_frame: "frame s (dispose i s)"
proof (cases "i < length (disposables s) \<and> \<not> d_disposed (disposables s ! i)")
  case False
  then show ?thesis by (auto simp add: dispose_def frame_refl)
next
  case True
  let ?d = "disposables s ! i"
  let ?s1 = "s\<lparr>disposables := (disposables s)[i := ?d\<lparr>d_disposed := True\<rparr>]\<rparr>"
  let ?s2 = "removeListener ServiceFrameworkEventEmitter (d_remoteEventName ?d) (Opaque (d_callback ?d)) ?s1"
  have eq: "dispose i s =
      then_do (d_subscribePromise ?d)
        (UnsubscribeEvent (d_serviceName ?d) (d_eventMethodName ?d) (d_serviceOptions ?d)) ?s2"
    using True by (simp add: dispose_def disposalAction_def)
  have 1: "frame s ?s1" by (simp add: frame_def)
  have 2: "frame ?s1 ?s2" by (rule removeListener_frame) simp
  have 3: "frame ?s2 (then_do (d_subscribePromise ?d)
        (UnsubscribeEvent (d_serviceName ?d) (d_eventMethodName ?d) (d_serviceOptions ?d)) ?s2)"
    by (rule then_do_frame)
  show ?thesis unfolding eq using frame_trans [OF frame_trans [OF 1 2] 3] .
qed

lemma callMethod_frame: "frame s (snd (callMethod sv me as eo s))"
  by (cases "socket s")
     (simp_all add: callMethod_def new_promise_def logger_error_def frame_def nth_append)

lemma consume_frame: "frame s (snd (consumeEventEmitter i ns d s))"
proof -
  let ?e = "next_emitter s"
  let ?s1 = "s\<lparr>next_emitter := Suc ?e,
                listeners := (listeners s)(StreamEmitter ?e := (\<lambda>k. [])),
                eventEmitters := (eventEmitters s)(i \<mapsto> ?e)\<rparr>"
  let ?s2 = "fold (\<lambda>n. once (StreamEmitter ?e) n (DisposeEmitter i))
               (case d of None \<Rightarrow> [] | Some ns \<Rightarrow> ns) ?s1"
  have 1: "frame s ?s1" by (simp add: frame_def)
  have 2: "frame ?s1 ?s2" by (rule fold_once_frame2) simp_all
  have 3: "frame s ?s2" using frame_trans [OF 1 2] .
  have 4: "frame ?s2 (?s2\<lparr>connect_waits := Suc (connect_waits ?s2)\<rparr>)" by (simp add: frame_def)
  have eq: "snd (consumeEventEmitter i ns d s) =
              (case socket ?s2 of None \<Rightarrow> ?s2
               | Some sid \<Rightarrow> ?s2\<lparr>connect_waits := Suc (connect_waits ?s2)\<rparr>)"
    by (simp add: consumeEventEmitter_def Let_def split: option.splits)
  show ?thesis
    unfolding eq using 3 frame_trans [OF 3 4] by (cases "socket ?s2") simp_all
qed

lemma close_frame: "frame s (snd (close s))"
  by (cases "socket s") (simp_all add: close_def frame_def)

lemma unsubscribe_tracked:
  assumes t: "tracked s"
  shows "tracked (snd (unsubscribeEventFromServer cfg sv me so s)) \<and>
         keeps s (snd (unsubscribeEventFromServer cfg sv me so s))"
proof (cases "socket s")
  case None
  then show ?thesis using t by (simp add: unsubscribeEventFromServer_def keeps_refl)
next
  case (Some sid)
  have "snd (unsubscribeEventFromServer cfg sv me so s) =
        snd (callServiceFrameworkMethod ''serviceFramework'' ''unsubscribeEvent''
               [JStr sid, JStr sv, undefined_or_str me] so (SERVICE_FRAMEWORK_RPC_TIMEOUT_MS cfg) s)"
    using Some by (simp add: unsubscribeEventFromServer_def split: prod.splits)
  then show ?thesis using callSFM_tracked [OF t] by simp
qed

lemma subscribe_tracked:
  assumes t: "tracked s"
  shows "tracked (snd (subscribeEventOnServer cfg sv me so s)) \<and>
         keeps s (snd (subscribeEventOnServer cfg sv me so s))"
proof (cases "socket s")
  case None
  then show ?thesis using t by (simp add: subscribeEventOnServer_def keeps_refl)
next
  case (Some sid)
  have "snd (subscribeEventOnServer cfg sv me so s) =
        snd (callServiceFrameworkMethod ''serviceFramework'' ''subscribeEvent''
               [JStr sid, JStr sv, undefined_or_str me] so (SERVICE_FRAMEWORK_RPC_TIMEOUT_MS cfg) s)"
    using Some by (simp add: subscribeEventOnServer_def split: prod.splits)
  then show ?thesis using callSFM_tracked [OF t] by simp
qed

lemma register_tracked:
  assumes t: "tracked s"
  shows "tracked (snd (registerEventListener cfg n cb so s)) \<and>
         keeps s (snd (registerEventListener cfg n cb so s))"
proof -
  let ?parts = "split_on CHR ''/'' n"
  let ?sv = "(case ?parts of [] \<Rightarrow> [] | x # xs \<Rightarrow> x)"
  let ?me = "(case ?parts of x # y # ys \<Rightarrow> Some y | _ \<Rightarrow> None)"
  let ?rn = "getRemoteEventName cfg ?sv ?me so"
  let ?s1 = "on ServiceFrameworkEventEmitter ?rn (Opaque cb) s"
  let ?sub = "subscribeEventOnServer cfg ?sv ?me so ?s1"
  have f1: "frame s ?s1" by (rule on_frame) simp_all
  have t1: "tracked ?s1" using tracked_frame [OF t f1] .
  have k2: "tracked (snd ?sub)" "keeps ?s1 (snd ?sub)" using subscribe_tracked [OF t1] by simp_all
  obtain x s2 where eq: "?sub = (x, s2)" by (cases ?sub) auto
  have t2: "tracked s2" and k: "keeps s s2"
    using k2 eq keeps_trans [OF frame_keeps [OF f1]] by simp_all
  show ?thesis
  proof (cases x)
    case (Threw e)
    then show ?thesis using t2 k eq by (simp add: registerEventListener_def Let_def)
  next
    case (Returned p)
    let ?s3 = "s2\<lparr>disposables := disposables s2 @
                   [\<lparr>d_remoteEventName = ?rn, d_callback = cb,
                     d_subscribePromise = p, d_serviceName = ?sv,
                     d_eventMethodName = ?me,
                     d_serviceOptions = so, d_disposed = False\<rparr>]\<rparr>"
    have f3: "frame s2 ?s3" by (simp add: frame_def)
    have "snd (registerEventListener cfg n cb so s) = ?s3"
      using Returned eq by (simp add: registerEventListener_def Let_def)
    then show ?thesis
      using tracked_frame [OF t2 f3] keeps_trans [OF k frame_keeps [OF f3]] by simp
  qed
qed

lemma fold_reaction_tracked:
  "tracked s \<Longrightarrow> tracked (fold (run_reaction cfg) rs s) \<and> keeps s (fold (run_reaction cfg) rs s)"
proof (induction rs arbitrary: s)
  case Nil
  then show ?case by (simp add: keeps_refl)
next
  case (Cons r rs)
  obtain sv me so where r: "r = UnsubscribeEvent sv me so" by (cases r) auto
  have 1: "tracked (run_reaction cfg r s)" "keeps s (run_reaction cfg r s)"
    using unsubscribe_tracked [OF Cons.prems] r by simp_all
  have 2: "tracked (fold (run_reaction cfg) rs (run_reaction cfg r s))"
    "keeps (run_reaction cfg r s) (fold (run_reaction cfg) rs (run_reaction cfg r s))"
    using Cons.IH [OF 1(1)] by simp_all
  show ?case using 2(1) keeps_trans [OF 1(2) 2(2)] by simp
qed

lemma run_microtasks_tracked:
  assumes t: "tracked s"
  shows "tracked (run_microtasks cfg s) \<and> keeps s (run_microtasks cfg s)"
proof -
  have f: "frame s (s\<lparr>microtasks := []\<rparr>)" by (simp add: frame_def)
  have 1: "tracked (s\<lparr>microtasks := []\<rparr>)" using tracked_frame [OF t f] .
  show ?thesis
    unfolding run_microtasks_def
    using fold_reaction_tracked [OF 1, of cfg "microtasks s"] keeps_trans [OF frame_keeps [OF f]]
    by blast
qed
text \<open>Tasks, steps and runs.\<close>

lemma message_tracked:
  assumes t: "tracked s"
  shows "tracked (snd (handleSocketMessage cfg m s)) \<and>
         (keeps s (snd (handleSocketMessage cfg m s)) \<or>
          (\<exists>u \<in> set (timers s). hits cfg (Message m) u \<and> affects u s (snd (handleSocketMessage cfg m s))))"
proof (cases "\<exists>u \<in> set (timers s). hits cfg (Message m) u")
  case True
  then obtain u where u: "u \<in> set (timers s)" "hits cfg (Message m) u" by blast
  then have "tracked (snd (handleSocketMessage cfg m s)) \<and> affects u s (snd (handleSocketMessage cfg m s))"
    using handle_rpc_hit [OF t u(1)] by simp
  then show ?thesis using u by blast
next
  case False
  have "frame s (snd (handleSocketMessage cfg m s))"
  proof (rule handle_frame [OF t])
    assume ch: "msg_channel m = Some (SERVICE_FRAMEWORK_RPC_CHANNEL cfg)"
    show "msg_requestId m = None \<or>
          (\<exists>r. msg_requestId m = Some r \<and> listeners s ServiceFrameworkRpcEmitter (show_int r) = [])"
    proof (cases "msg_requestId m")
      case None
      then show ?thesis by simp
    next
      case (Some r)
      have "listeners s ServiceFrameworkRpcEmitter (show_int r) = []"
      proof (rule ccontr)
        assume "listeners s ServiceFrameworkRpcEmitter (show_int r) \<noteq> []"
        then obtain u where u: "u \<in> set (timers s)" "show_int r = show_int (tm_requestId u)"
          using trackedD(7) [OF t] by blast
        then have "r = tm_requestId u" using show_int_inj by blast
        then have "hits cfg (Message m) u" using ch Some by simp
        then show False using False u(1) by blast
      qed
      then show ?thesis using Some by simp
    qed
  qed
  then show ?thesis using framed [OF t] by blast
qed

lemma task_tracked:
  assumes t: "tracked s"
  shows "tracked (task cfg a s) \<and>
         (keeps s (task cfg a s) \<or> (\<exists>u \<in> set (timers s). hits cfg a u \<and> affects u s (task cfg a s)))"
proof (cases a)
  case (Message m)
  then show ?thesis using message_tracked [OF t] by simp
next
  case (TimerExpired u)
  show ?thesis
  proof (cases "u \<in> set (timers s)")
    case True
    then show ?thesis using fireTimer_hit [OF t True] TimerExpired by auto
  next
    case False
    then show ?thesis using t TimerExpired by (simp add: fireTimer_miss keeps_refl)
  qed
next
  case (CallServiceFrameworkMethod sv me as so tmo)
  then show ?thesis using callSFM_tracked [OF t] by simp
next
  case NextRequestId
  then show ?thesis using framed [OF t nextRequestId_frame] by simp
next
  case (RegisterEventListener n cb so)
  then show ?thesis using register_tracked [OF t] by simp
next
  case (Dispose i)
  then show ?thesis using framed [OF t dispose_frame] by simp
next
  case (CallMethod sv me as eo)
  then show ?thesis using framed [OF t callMethod_frame] by simp
next
  case (ConsumeEventEmitter i ns d)
  then show ?thesis using framed [OF t consume_frame] by simp
next
  case (Listen r k c)
  show ?thesis
  proof (cases "r = ServiceFrameworkRpcEmitter")
    case True
    then show ?thesis using t Listen by (simp add: keeps_refl)
  next
    case False
    have "frame s (on r k (Opaque c) s)" using False by (intro on_frame) simp_all
    then show ?thesis using framed [OF t] Listen False by simp
  qed
next
  case Close
  then show ?thesis using framed [OF t close_frame] by simp
qed

lemma step_tracked:
  assumes t: "tracked s"
  shows "tracked (step cfg a s) \<and>
         (keeps s (step cfg a s) \<or> (\<exists>u \<in> set (timers s). hits cfg a u \<and> affects u s (step cfg a s)))"
proof -
  note 1 = task_tracked [OF t, of cfg a]
  note 2 = run_microtasks_tracked [of "task cfg a s" cfg]
  have a: "tracked (step cfg a s)" using 1 2 by (simp add: step_def)
  have k: "keeps (task cfg a s) (step cfg a s)" using 1 2 by (simp add: step_def)
  show ?thesis
    using a 1 keeps_trans [OF _ k] affects_keeps_trans [OF _ k] by blast
qed

lemma step_settles: "tracked s \<Longrightarrow> settles s (step cfg a s)"
  using step_tracked [of s cfg a] keeps_affects affects_settles by blast

lemma run_tracked: "tracked s \<Longrightarrow> tracked (run cfg ops s) \<and> settles s (run cfg ops s)"
proof (induction ops arbitrary: s)
  case Nil
  then show ?case by (simp add: run_def settles_refl)
next
  case (Cons a ops)
  have 1: "tracked (step cfg a s)" using step_tracked [OF Cons.prems] by simp
  have 2: "settles s (step cfg a s)" using step_settles [OF Cons.prems] .
  have 3: "tracked (run cfg ops (step cfg a s))" "settles (step cfg a s) (run cfg ops (step cfg a s))"
    using Cons.IH [OF 1] by simp_all
  have "run cfg (a # ops) s = run cfg ops (step cfg a s)" by (simp add: run_def)
  then show ?case using 3(1) settles_trans [OF 2 3(2)] by simp
qed

lemma step_in_flight:
  assumes t: "tracked s" and f: "in_flight u s" and h: "\<not> hits cfg a u"
  shows "in_flight u (step cfg a s)"
proof -
  have u: "u \<in> set (timers s)" and p: "promises s ! tm_promise u = Pending"
    using f by (simp_all add: in_flight_def)
  have pl: "tm_promise u < length (promises s)" using trackedD(5) [OF t u] .
  consider (k) "keeps s (step cfg a s)"
    | (a) v where "v \<in> set (timers s)" "hits cfg a v" "affects v s (step cfg a s)"
    using step_tracked [OF t, of cfg a] by blast
  then show ?thesis
  proof cases
    case k
    then show ?thesis using u p pl unfolding keeps_def in_flight_def by auto
  next
    case a
    have "v \<noteq> u" using a(2) h by auto
    then have "tm_promise u \<noteq> tm_promise v" using trackedD(3) [OF t u a(1)] by auto
    then show ?thesis using a(3) \<open>v \<noteq> u\<close> u p pl unfolding affects_def in_flight_def by auto
  qed
qed

lemma run_in_flight:
  "tracked s \<Longrightarrow> in_flight u s \<Longrightarrow> \<forall>a \<in> set ops. \<not> hits cfg a u \<Longrightarrow> in_flight u (run cfg ops s)"
proof (induction ops arbitrary: s)
  case Nil
  then show ?case by (simp add: run_def)
next
  case (Cons a ops)
  have 1: "tracked (step cfg a s)" using step_tracked [OF Cons.prems(1)] by simp
  have 2: "in_flight u (step cfg a s)" using step_in_flight [OF Cons.prems(1,2)] Cons.prems(3) by simp
  have "run cfg (a # ops) s = run cfg ops (step cfg a s)" by (simp add: run_def)
  then show ?case using Cons.IH [OF 1 2] Cons.prems(3) by simp
qed

lemma tracked_constructor: "tracked (constructor sid)"
  by (rule trackedI) (simp_all add: constructor_def)

lemma reachable_tracked: "tracked (run cfg ops (constructor sid))"
  using run_tracked [OF tracked_constructor] by simp
text \<open>
  A call in flight is settled by its response or by its timer, whichever is handled first,
  and stays as settled whatever happens later.
\<close>

lemma settles_promise:
  assumes "settles s s'" and "p < length (promises s)" and "promises s ! p \<noteq> Pending"
  shows "promise_state s' p = promises s ! p"
  using assms unfolding settles_def promise_state_def by auto

lemma settles_gone:
  assumes "settles s s'" and "r < rpcRequestId s" and "\<forall>v \<in> set (timers s). tm_requestId v \<noteq> r"
  shows "r < rpcRequestId s' \<and> (\<forall>v \<in> set (timers s'). tm_requestId v \<noteq> r)"
  using assms unfolding settles_def by fastforce

lemma tracked_gone_key:
  assumes t: "tracked s" and g: "\<forall>v \<in> set (timers s). tm_requestId v \<noteq> r"
  shows "listeners s ServiceFrameworkRpcEmitter (show_int r) = []"
proof (rule ccontr)
  assume "listeners s ServiceFrameworkRpcEmitter (show_int r) \<noteq> []"
  then obtain u where u: "u \<in> set (timers s)" "show_int r = show_int (tm_requestId u)"
    using trackedD(7) [OF t] by blast
  then have "r = tm_requestId u" using show_int_inj by blast
  then show False using g u(1) by blast
qed

lemma step_run_settles:
  assumes t: "tracked s"
  shows "tracked (run cfg later (step cfg a s)) \<and> settles (step cfg a s) (run cfg later (step cfg a s))"
  using run_tracked [of "step cfg a s" cfg later] step_tracked [OF t, of cfg a] by simp

lemma response_settles:
  assumes t: "tracked s" and f: "in_flight u s"
      and ch: "msg_channel m = Some (SERVICE_FRAMEWORK_RPC_CHANNEL cfg)"
      and rid: "msg_requestId m = Some (tm_requestId u)"
  shows "fst (handleSocketMessage cfg m s) = Returned () \<and>
         promise_state (run cfg later (step cfg (Message m) s)) (tm_promise u) =
           (if truthy (msg_error m) then Rejected (Value (msg_error m)) else Fulfilled (msg_result m))"
proof -
  let ?p = "tm_promise u"
  let ?k = "show_int (tm_requestId u)"
  let ?h = "snd (handleSocketMessage cfg m s)"
  let ?v = "if truthy (msg_error m) then Rejected (Value (msg_error m)) else Fulfilled (msg_result m)"
  have u: "u \<in> set (timers s)" and p: "promises s ! ?p = Pending"
    using f by (simp_all add: in_flight_def)
  have pl: "?p < length (promises s)" using trackedD(5) [OF t u] .
  have one: "listeners s ServiceFrameworkRpcEmitter ?k = [Once (RpcSettle ?p)]"
    using trackedD(6) [OF t u p] .
  note eq = handle_rpc_single [OF ch rid one]
  have r: "fst (handleSocketMessage cfg m s) = Returned ()" unfolding eq by simp
  have ln: "length (promises ?h) = length (promises s)"
    unfolding eq by (simp add: resolve_def reject_def removeListener_def)
  have pv: "promises ?h ! ?p = ?v"
    unfolding eq using p pl by (simp add: resolve_def reject_def removeListener_def)
  have th: "tracked ?h" using handle_rpc_hit [OF t u ch rid] by simp
  have k: "keeps ?h (step cfg (Message m) s)"
    using run_microtasks_tracked [OF th, of cfg] by (simp add: step_def)
  have ln3: "?p < length (promises (step cfg (Message m) s))"
    using k ln pl unfolding keeps_def by simp
  have pv3: "promises (step cfg (Message m) s) ! ?p = ?v"
    using k ln pl pv unfolding keeps_def by simp
  have "settles (step cfg (Message m) s) (run cfg later (step cfg (Message m) s))"
    using step_run_settles [OF t] by simp
  then have "promise_state (run cfg later (step cfg (Message m) s)) ?p =
               promises (step cfg (Message m) s) ! ?p"
    using ln3 pv3 by (intro settles_promise) simp_all
  then show ?thesis using r pv3 by simp
qed

lemma timeout_settles:
  assumes t: "tracked s" and f: "in_flight u s"
      and ch: "msg_channel m = Some (SERVICE_FRAMEWORK_RPC_CHANNEL cfg)"
      and rid: "msg_requestId m = Some (tm_requestId u)"
  shows "promise_state (run cfg later (step cfg (TimerExpired u) s)) (tm_promise u) =
           Rejected (Value (JStr (timeout_message (tm_timeout u) (tm_serviceName u) (tm_methodName u)))) \<and>
         handleSocketMessage cfg m (run cfg later (step cfg (TimerExpired u) s)) =
           (Returned (),
            (run cfg later (step cfg (TimerExpired u) s))
              \<lparr>emitted := emitted (run cfg later (step cfg (TimerExpired u) s)) @
                 [(ServiceFrameworkRpcEmitter, Some (show_int (tm_requestId u)),
                   [msg_error m, msg_result m])]\<rparr>)"
proof -
  let ?p = "tm_promise u"
  let ?r = "tm_requestId u"
  let ?f = "fireTimer u s"
  let ?s3 = "step cfg (TimerExpired u) s"
  let ?s4 = "run cfg later ?s3"
  let ?v = "Rejected (Value (JStr (timeout_message (tm_timeout u) (tm_serviceName u) (tm_methodName u))))"
  have u: "u \<in> set (timers s)" and p: "promises s ! ?p = Pending"
    using f by (simp_all add: in_flight_def)
  have pl: "?p < length (promises s)" using trackedD(5) [OF t u] .
  have hit: "tracked ?f" "affects u s ?f" "u \<notin> set (timers ?f)"
    using fireTimer_hit [OF t u] by simp_all
  have pf: "promise_state ?f ?p = ?v" using fireTimer_pending [OF u pl p] .
  have lf: "?p < length (promises ?f)" using hit(2) pl unfolding affects_def by simp
  have pv: "promises ?f ! ?p = ?v" using pf lf by (simp add: promise_state_def)
  have gone: "?r < rpcRequestId ?f" "\<forall>v \<in> set (timers ?f). tm_requestId v \<noteq> ?r"
  proof -
    show "?r < rpcRequestId ?f" using trackedD(4) [OF t u] by (simp add: fireTimer_wire)
    show "\<forall>v \<in> set (timers ?f). tm_requestId v \<noteq> ?r"
    proof
      fix v assume v: "v \<in> set (timers ?f)"
      have "v \<in> set (timers s) \<or> rpcRequestId s \<le> tm_requestId v"
        using hit(2) v unfolding affects_def by blast
      then show "tm_requestId v \<noteq> ?r"
      proof
        assume vs: "v \<in> set (timers s)"
        have "v \<noteq> u" using v hit(3) by auto
        then show ?thesis using trackedD(2) [OF t vs u] by auto
      next
        assume "rpcRequestId s \<le> tm_requestId v"
        then show ?thesis using trackedD(4) [OF t u] by simp
      qed
    qed
  qed
  have k: "keeps ?f ?s3" using run_microtasks_tracked [OF hit(1), of cfg] by (simp add: step_def)
  have s34: "tracked ?s4" "settles ?s3 ?s4" using step_run_settles [OF t] by simp_all
  have s: "settles ?f ?s4"
    using settles_trans [OF affects_settles [OF keeps_affects [OF k]] s34(2)] .
  have 1: "promise_state ?s4 ?p = ?v"
    using settles_promise [OF s lf] pv by simp
  have "\<forall>v \<in> set (timers ?s4). tm_requestId v \<noteq> ?r"
    using settles_gone [OF s gone] by simp
  then have "listeners ?s4 ServiceFrameworkRpcEmitter (show_int ?r) = []"
    using tracked_gone_key [OF s34(1)] by simp
  then have 2: "handleSocketMessage cfg m ?s4 =
           (Returned (),
            ?s4\<lparr>emitted := emitted ?s4 @
                 [(ServiceFrameworkRpcEmitter, Some (show_int ?r), [msg_error m, msg_result m])]\<rparr>)"
    using handle_rpc_no_listener [OF ch rid] by simp
  show ?thesis using 1 2 by simp
qed

lemma call_in_flight:
  assumes t: "tracked s" and opn: "socket s \<noteq> None"
  shows "fst (callServiceFrameworkMethod sv me as so tmo s) = length (promises s) \<and>
         tracked (snd (callServiceFrameworkMethod sv me as so tmo s)) \<and>
         in_flight \<lparr>tm_requestId = rpcRequestId s, tm_promise = length (promises s),
                    tm_timeout = tmo, tm_serviceName = sv, tm_methodName = me\<rparr>
           (snd (callServiceFrameworkMethod sv me as so tmo s))"
proof -
  obtain sid where o: "socket s = Some sid" using opn by auto
  show ?thesis
    using callSFM_tracked [OF t, of sv me as so tmo]
    by (simp add: callSFM_open [OF o] in_flight_def)
qed
subsection \<open>A subscription and its disposal\<close>


























lemma register_closed_state:
  assumes "socket s = None"
  shows "snd (registerEventListener cfg n cb so s) =
           on ServiceFrameworkEventEmitter (remote_name cfg n so) (Opaque cb) s"
  using assms
  by (simp add: registerEventListener_def Let_def subscribeEventOnServer_def on_def remote_name_def)














subsection \<open>The table of stream emitters\<close>

text \<open>The invariant of the table, kept by every method.\<close>

lemma streamsD:
  assumes "streams s"
  shows "eventEmitters s j = Some e \<Longrightarrow> e < next_emitter s"
    and "eventEmitters s j = Some e \<Longrightarrow> eventEmitters s j' = Some e \<Longrightarrow> j = j'"
    and "eventEmitters s j = Some e \<Longrightarrow> x \<in> disposers s (StreamEmitter e) k \<Longrightarrow> x = j"
    and "x \<in> disposers s r k \<Longrightarrow> \<exists>e. r = StreamEmitter e"
  using assms unfolding streams_def by blast+

lemma streamsI:
  assumes "\<And>j e. eventEmitters s j = Some e \<Longrightarrow> e < next_emitter s"
    and "\<And>j j' e. eventEmitters s j = Some e \<Longrightarrow> eventEmitters s j' = Some e \<Longrightarrow> j = j'"
    and "\<And>j e k x. eventEmitters s j = Some e \<Longrightarrow> x \<in> disposers s (StreamEmitter e) k \<Longrightarrow> x = j"
    and "\<And>r k x. x \<in> disposers s r k \<Longrightarrow> \<exists>e. r = StreamEmitter e"
  shows "streams s"
  unfolding streams_def using assms by blast

lemma streams_shrink:
  assumes c: "streams s"
      and nx: "next_emitter s \<le> next_emitter s'"
      and tb: "\<And>j e. eventEmitters s' j = Some e \<Longrightarrow> eventEmitters s j = Some e"
      and ds: "\<And>r k. disposers s' r k \<subseteq> disposers s r k"
  shows "streams s'"
proof (rule streamsI)
  show "e < next_emitter s'" if "eventEmitters s' j = Some e" for j e
    using streamsD(1) [OF c tb [OF that]] nx by simp
  show "j = j'" if "eventEmitters s' j = Some e" "eventEmitters s' j' = Some e" for j j' e
    using streamsD(2) [OF c tb [OF that(1)] tb [OF that(2)]] .
  show "x = j" if "eventEmitters s' j = Some e" "x \<in> disposers s' (StreamEmitter e) k" for j e k x
    using streamsD(3) [OF c tb [OF that(1)], of x k] that(2) ds by blast
  show "\<exists>e. r = StreamEmitter e" if "x \<in> disposers s' r k" for r k x
    using streamsD(4) [OF c, of x r k] that ds by blast
qed

lemma streams_cong:
  assumes c: "streams s"
      and "next_emitter s' = next_emitter s" and "eventEmitters s' = eventEmitters s"
      and "\<And>r k. disposers s' r k = disposers s r k"
  shows "streams s'"
  using assms by (intro streams_shrink [OF c]) simp_all

lemma disposers_eq: "listeners s' r k = listeners s r k \<Longrightarrow> disposers s' r k = disposers s r k"
  by (simp add: disposers_def)

lemma disposers_append:
  assumes "listeners s' r k = listeners s r k @ [e]" and "\<And>x. entry_listener e \<noteq> DisposeEmitter x"
  shows "disposers s' r k = disposers s r k"
  unfolding disposers_def using assms(1) assms(2) [THEN not_sym] by auto

lemma disposers_remove:
  "disposers (removeListener r k l s) r' k' \<subseteq> disposers s r' k'"
  using set_remove_last [of l "listeners s r k"]
  unfolding disposers_def removeListener_def by auto

lemma streams_invoke: "streams s \<Longrightarrow> streams (invoke l as s)"
proof (cases l)
  case (RpcSettle p)
  assume c: "streams s"
  have "next_emitter (invoke l as s) = next_emitter s \<and> eventEmitters (invoke l as s) = eventEmitters s \<and>
        listeners (invoke l as s) = listeners s"
    using RpcSettle by (simp add: Let_def resolve_def reject_def)
  then show ?thesis by (intro streams_cong [OF c]) (simp_all add: disposers_def)
next
  case (DisposeEmitter x)
  assume c: "streams s"
  show ?thesis unfolding DisposeEmitter
    by (rule streams_shrink [OF c]) (simp_all add: disposers_def split: if_splits)
next
  case (Opaque x)
  assume c: "streams s"
  show ?thesis unfolding Opaque
    by (rule streams_cong [OF c]) (simp_all add: disposers_def)
qed

lemma streams_removeListener:
  assumes c: "streams s"
  shows "streams (removeListener r k l s)"
proof (rule streams_shrink [OF c])
  show "\<And>r' k'. disposers (removeListener r k l s) r' k' \<subseteq> disposers s r' k'"
    by (rule disposers_remove)
qed (simp_all add: removeListener_def)

lemma streams_emitted:
  assumes c: "streams s"
  shows "streams (s\<lparr>emitted := x\<rparr>)"
  by (rule streams_cong [OF c]) (simp_all add: disposers_def)

lemma streams_logger:
  assumes c: "streams s"
  shows "streams (logger_error e s)"
  by (rule streams_cong [OF c]) (simp_all add: disposers_def logger_error_def)

lemma streams_emit: "streams s \<Longrightarrow> streams (snd (emit r n as s))"
proof (rule emit_preserves [where P = streams])
  show "\<And>l as s. streams s \<Longrightarrow> streams (invoke l as s)" by (rule streams_invoke)
  show "\<And>r k l s. streams s \<Longrightarrow> streams (removeListener r k l s)" by (rule streams_removeListener)
  show "\<And>x s. streams s \<Longrightarrow> streams (s\<lparr>emitted := x\<rparr>)" by (rule streams_emitted)
qed

lemma streams_handle: "streams s \<Longrightarrow> streams (snd (handleSocketMessage cfg m s))"
proof (rule handle_preserves [where P = streams])
  show "\<And>r n as s. streams s \<Longrightarrow> streams (snd (emit r n as s))" by (rule streams_emit)
  show "\<And>e s. streams s \<Longrightarrow> streams (logger_error e s)" by (rule streams_logger)
qed

lemma streams_fields:
  assumes c: "streams s"
      and "next_emitter s' = next_emitter s" and "eventEmitters s' = eventEmitters s"
      and "listeners s' = listeners s"
  shows "streams s'"
  using assms(2-) by (intro streams_cong [OF c]) (simp_all add: disposers_def)

lemma fireTimer_table:
  "next_emitter (fireTimer t s) = next_emitter s \<and> eventEmitters (fireTimer t s) = eventEmitters s \<and>
   (\<forall>r. r \<noteq> ServiceFrameworkRpcEmitter \<longrightarrow> listeners (fireTimer t s) r = listeners s r) \<and>
   error_log (fireTimer t s) = error_log s \<and> emitted (fireTimer t s) = emitted s"
  by (simp add: fireTimer_def reject_def removeAllListeners_def)

lemma streams_fireTimer:
  assumes c: "streams s"
  shows "streams (fireTimer t s)"
proof (rule streams_shrink [OF c])
  show "disposers (fireTimer t s) r k \<subseteq> disposers s r k" for r k
    by (auto simp add: fireTimer_def reject_def removeAllListeners_def disposers_def split: if_splits)
qed (simp_all add: fireTimer_table)

lemma streams_callSFM:
  assumes c: "streams s"
  shows "streams (snd (callServiceFrameworkMethod sv me as so tmo s))"
proof (cases "socket s")
  case None
  show ?thesis by (rule streams_fields [OF c]) (simp_all add: callSFM_closed [OF None])
next
  case (Some sid)
  show ?thesis
  proof (rule streams_cong [OF c])
    show "disposers (snd (callServiceFrameworkMethod sv me as so tmo s)) r k = disposers s r k" for r k
      by (auto simp add: callSFM_open [OF Some] disposers_def)
  qed (simp_all add: callSFM_open [OF Some])
qed

lemma streams_nextRequestId:
  assumes c: "streams s"
  shows "streams (snd (nextRequestId s))"
  by (rule streams_fields [OF c]) (simp_all add: nextRequestId_def)

lemma streams_callMethod:
  assumes c: "streams s"
  shows "streams (snd (callMethod sv me as eo s))"
  by (rule streams_fields [OF c])
     (simp_all add: callMethod_def new_promise_def logger_error_def split: option.splits)

lemma streams_close:
  assumes c: "streams s"
  shows "streams (snd (close s))"
  by (rule streams_fields [OF c]) (simp_all add: close_def split: option.splits)

lemma streams_on:
  assumes c: "streams s"
  shows "streams (on r k (Opaque x) s)"
proof (rule streams_cong [OF c])
  show "disposers (on r k (Opaque x) s) r' k' = disposers s r' k'" for r' k'
    by (auto simp add: on_def disposers_def)
qed (simp_all add: on_def)

lemma streams_register:
  assumes c: "streams s"
  shows "streams (snd (registerEventListener cfg n cb so s))"
proof (cases "socket s")
  case None
  show ?thesis unfolding register_closed_state [OF None] using c by (rule streams_on)
next
  case (Some sid)
  show ?thesis
  proof (rule streams_cong [OF c])
    show "disposers (snd (registerEventListener cfg n cb so s)) r k = disposers s r k" for r k
      by (auto simp add: register_open [OF Some] disposers_def)
  qed (simp_all add: register_open [OF Some])
qed

lemma then_do_table:
  "next_emitter (then_do p f s) = next_emitter s \<and> eventEmitters (then_do p f s) = eventEmitters s \<and>
   listeners (then_do p f s) = listeners s \<and> error_log (then_do p f s) = error_log s \<and>
   emitted (then_do p f s) = emitted s"
  unfolding then_do_def by (cases "promise_state s p") simp_all

lemma streams_dispose:
  assumes c: "streams s"
  shows "streams (dispose i s)"
proof (cases "i < length (disposables s) \<and> \<not> d_disposed (disposables s ! i)")
  case False
  then show ?thesis using c by (auto simp add: dispose_def)
next
  case True
  let ?d = "disposables s ! i"
  let ?s1 = "s\<lparr>disposables := (disposables s)[i := ?d\<lparr>d_disposed := True\<rparr>]\<rparr>"
  let ?s2 = "removeListener ServiceFrameworkEventEmitter (d_remoteEventName ?d) (Opaque (d_callback ?d)) ?s1"
  have eq: "dispose i s =
      then_do (d_subscribePromise ?d)
        (UnsubscribeEvent (d_serviceName ?d) (d_eventMethodName ?d) (d_serviceOptions ?d)) ?s2"
    using True by (simp add: dispose_def disposalAction_def)
  have 1: "streams ?s1" by (rule streams_fields [OF c]) simp_all
  have 2: "streams ?s2" using 1 by (rule streams_removeListener)
  show ?thesis unfolding eq by (rule streams_fields [OF 2]) (simp_all add: then_do_table)
qed

lemma fold_once_next:
  "next_emitter (fold (\<lambda>n. once r n l) ns s) = next_emitter s"
  by (induction ns arbitrary: s) (simp_all add: once_def)

lemma consume_state:
  "next_emitter (snd (consumeEventEmitter i ns d s)) = Suc (next_emitter s) \<and>
   eventEmitters (snd (consumeEventEmitter i ns d s)) = (eventEmitters s)(i \<mapsto> next_emitter s) \<and>
   (\<forall>r. r \<noteq> StreamEmitter (next_emitter s) \<longrightarrow>
      listeners (snd (consumeEventEmitter i ns d s)) r = listeners s r)"
  by (simp add: consumeEventEmitter_def Let_def fold_once_frame fold_once_other fold_once_next split: option.splits)

lemma consume_disposers:
  "disposers (snd (consumeEventEmitter i ns d s)) (StreamEmitter (next_emitter s)) k =
     (if k \<in> set (case d of None \<Rightarrow> [] | Some ts \<Rightarrow> ts) then {i} else {})"
proof -
  let ?T = "case d of None \<Rightarrow> [] | Some ts \<Rightarrow> ts"
  have "k \<in> set ?T \<longleftrightarrow> 0 < count_list ?T k" using count_list_0_iff [of ?T k] by auto
  then show ?thesis by (auto simp add: disposers_def consume_listeners)
qed

lemma streams_consume:
  assumes c: "streams s"
  shows "streams (snd (consumeEventEmitter i ns d s))"
proof (rule streamsI)
  let ?s' = "snd (consumeEventEmitter i ns d s)"
  let ?e = "next_emitter s"
  note st = consume_state [of i ns d s]
  have nx: "next_emitter ?s' = Suc ?e" and tb: "eventEmitters ?s' = (eventEmitters s)(i \<mapsto> ?e)"
    and ls: "\<And>r. r \<noteq> StreamEmitter ?e \<Longrightarrow> listeners ?s' r = listeners s r"
    using st by simp_all
  have old: "e < ?e" if "eventEmitters s j = Some e" for j e
    using streamsD(1) [OF c that] .
  have od: "disposers ?s' r k = disposers s r k" if "r \<noteq> StreamEmitter ?e" for r k
    using ls [OF that] by (simp add: disposers_def)
  show "e < next_emitter ?s'" if "eventEmitters ?s' j = Some e" for j e
    using that tb nx old [of j e] by (cases "j = i") simp_all
  show "j = j'" if "eventEmitters ?s' j = Some e" "eventEmitters ?s' j' = Some e" for j j' e
  proof -
    consider "j = i" "j' = i" | "j = i" "j' \<noteq> i" | "j \<noteq> i" "j' = i" | "j \<noteq> i" "j' \<noteq> i" by blast
    then show ?thesis
    proof cases
      case 1 then show ?thesis by simp
    next
      case 2 then show ?thesis using that tb old [of j' e] by simp
    next
      case 3 then show ?thesis using that tb old [of j e] by simp
    next
      case 4 then show ?thesis using that tb streamsD(2) [OF c, of j e j'] by simp
    qed
  qed
  show "x = j" if "eventEmitters ?s' j = Some e" "x \<in> disposers ?s' (StreamEmitter e) k" for j e k x
  proof (cases "j = i")
    case True
    then have "e = ?e" using that(1) tb by simp
    then show ?thesis using that(2) True consume_disposers [of i ns d s k] by (simp split: if_splits)
  next
    case False
    then have o: "eventEmitters s j = Some e" using that(1) tb by simp
    then have "e \<noteq> ?e" using old [OF o] by simp
    then have "x \<in> disposers s (StreamEmitter e) k" using that(2) od by simp
    then show ?thesis using streamsD(3) [OF c o] by simp
  qed
  show "\<exists>e. r = StreamEmitter e" if "x \<in> disposers ?s' r k" for r k x
  proof (cases "r = StreamEmitter ?e")
    case True
    then show ?thesis by simp
  next
    case False
    then show ?thesis using that od [OF False] streamsD(4) [OF c, of x r k] by simp
  qed
qed

lemma streams_unsubscribe:
  assumes c: "streams s"
  shows "streams (snd (unsubscribeEventFromServer cfg sv me so s))"
proof (cases "socket s")
  case None
  then show ?thesis using c by (simp add: unsubscribeEventFromServer_def)
next
  case (Some sid)
  have "snd (unsubscribeEventFromServer cfg sv me so s) =
        snd (callServiceFrameworkMethod ''serviceFramework'' ''unsubscribeEvent''
               [JStr sid, JStr sv, undefined_or_str me] so (SERVICE_FRAMEWORK_RPC_TIMEOUT_MS cfg) s)"
    using Some by (simp add: unsubscribeEventFromServer_def split: prod.splits)
  then show ?thesis using streams_callSFM [OF c] by simp
qed

lemma streams_fold_reaction: "streams s \<Longrightarrow> streams (fold (run_reaction cfg) rs s)"
proof (induction rs arbitrary: s)
  case Nil
  then show ?case by simp
next
  case (Cons r rs)
  obtain sv me so where r: "r = UnsubscribeEvent sv me so" by (cases r) auto
  have "streams (run_reaction cfg r s)" using streams_unsubscribe [OF Cons.prems] r by simp
  then show ?case using Cons.IH by simp
qed

lemma streams_run_microtasks:
  assumes c: "streams s"
  shows "streams (run_microtasks cfg s)"
proof -
  have "streams (s\<lparr>microtasks := []\<rparr>)" by (rule streams_fields [OF c]) simp_all
  then show ?thesis unfolding run_microtasks_def by (rule streams_fold_reaction)
qed

lemma streams_task:
  assumes c: "streams s"
  shows "streams (task cfg a s)"
proof (cases a)
  case (Message m)
  then show ?thesis using streams_handle [OF c] by simp
next
  case (TimerExpired u)
  then show ?thesis using streams_fireTimer [OF c] by simp
next
  case (CallServiceFrameworkMethod sv me as so tmo)
  then show ?thesis using streams_callSFM [OF c] by simp
next
  case NextRequestId
  then show ?thesis using streams_nextRequestId [OF c] by simp
next
  case (RegisterEventListener n cb so)
  then show ?thesis using streams_register [OF c] by simp
next
  case (Dispose j)
  then show ?thesis using streams_dispose [OF c] by simp
next
  case (CallMethod sv me as eo)
  then show ?thesis using streams_callMethod [OF c] by simp
next
  case (ConsumeEventEmitter x ns e)
  then show ?thesis using streams_consume [OF c] by simp
next
  case (Listen r k l)
  then show ?thesis using c streams_on [OF c] by simp
next
  case Close
  then show ?thesis using streams_close [OF c] by simp
qed

lemma streams_step: "streams s \<Longrightarrow> streams (step cfg a s)"
  unfolding step_def by (intro streams_run_microtasks streams_task)

lemma streams_run: "streams s \<Longrightarrow> streams (run cfg ops s)"
  unfolding run_def by (induction ops arbitrary: s) (simp_all add: streams_step)

lemma reachable_streams: "streams (run cfg ops (constructor sid))"
proof (rule streams_run)
  show "streams (constructor sid)"
    by (rule streamsI) (simp_all add: constructor_def disposers_def)
qed
text \<open>
  The entry of an id stays as it is through every task but a terminal event for the id
  and a new \<^verbatim>\<open>consumeEventEmitter\<close> of the id.
\<close>

lemma same_stream_refl: "same_stream i e s s"
  by (simp add: same_stream_def)

lemma same_stream_trans: "same_stream i e a b \<Longrightarrow> same_stream i e b c \<Longrightarrow> same_stream i e a c"
  by (simp add: same_stream_def)

lemma same_stream_fields:
  assumes "eventEmitters s' = eventEmitters s"
      and "listeners s' (StreamEmitter e) = listeners s (StreamEmitter e)"
  shows "same_stream i e s s'"
  using assms by (simp add: same_stream_def disposers_def)

lemma streaming_same:
  assumes "streaming i e T s" and "same_stream i e s s'"
  shows "streaming i e T s'"
  using assms by (simp add: streaming_def same_stream_def)

lemma remove_last_other:
  "l \<noteq> l' \<Longrightarrow> l' \<in> entry_listener ` set (remove_last l es) \<longleftrightarrow> l' \<in> entry_listener ` set es"
  by (induction es) auto

lemma invoke_same_stream:
  assumes "l \<noteq> DisposeEmitter i"
  shows "same_stream i e s (invoke l as s)"
proof (cases l)
  case (RpcSettle p)
  then show ?thesis by (intro same_stream_fields) (simp_all add: Let_def resolve_def reject_def)
next
  case (DisposeEmitter x)
  then show ?thesis using assms by (simp add: same_stream_def disposers_def)
next
  case (Opaque x)
  then show ?thesis by (intro same_stream_fields) simp_all
qed

lemma removeListener_same_stream:
  assumes "l \<noteq> DisposeEmitter i"
  shows "same_stream i e s (removeListener r k l s)"
  using remove_last_other [OF assms, of "listeners s r k"]
  by (simp add: same_stream_def disposers_def removeListener_def)

lemma fire_same_stream:
  assumes "entry_listener x \<noteq> DisposeEmitter i"
  shows "same_stream i e s (fire r k as x s)"
proof (cases x)
  case (On l)
  then show ?thesis using assms invoke_same_stream [of l i e s as] by simp
next
  case (Once l)
  have l: "l \<noteq> DisposeEmitter i" using assms Once by simp
  have "same_stream i e s (removeListener r k l s)" using l by (rule removeListener_same_stream)
  moreover have "same_stream i e (removeListener r k l s) (invoke l as (removeListener r k l s))"
    using l by (rule invoke_same_stream)
  ultimately show ?thesis using Once same_stream_trans by simp
qed

lemma fold_fire_same_stream:
  "\<forall>x \<in> set es. entry_listener x \<noteq> DisposeEmitter i \<Longrightarrow> same_stream i e s (fold (fire r k as) es s)"
proof (induction es arbitrary: s)
  case Nil
  then show ?case by (simp add: same_stream_refl)
next
  case (Cons x es)
  have "same_stream i e s (fire r k as x s)" using Cons.prems by (simp add: fire_same_stream)
  moreover have "same_stream i e (fire r k as x s) (fold (fire r k as) es (fire r k as x s))"
    using Cons.IH Cons.prems by simp
  ultimately show ?case using same_stream_trans by simp
qed

lemma emit_same_stream:
  assumes n: "i \<notin> disposers s r (event_key n)"
  shows "same_stream i e s (snd (emit r n as s))"
proof (cases "error_event_unhandled s r n")
  case True
  then show ?thesis by (simp add: emit_threw same_stream_def disposers_def)
next
  case False
  let ?s0 = "s\<lparr>emitted := emitted s @ [(r, n, as)]\<rparr>"
  have a: "same_stream i e s ?s0" by (simp add: same_stream_def disposers_def)
  have "\<forall>x \<in> set (listeners s r (event_key n)). entry_listener x \<noteq> DisposeEmitter i"
    using n by (force simp add: disposers_def)
  then have "same_stream i e ?s0 (fold (fire r (event_key n) as) (listeners s r (event_key n)) ?s0)"
    by (rule fold_fire_same_stream)
  then show ?thesis using a same_stream_trans by (simp add: emit_returned [OF False])
qed

lemma not_disposer:
  assumes c: "streams s" and r: "\<And>x. r \<noteq> StreamEmitter x"
  shows "i \<notin> disposers s r k"
  using streamsD(4) [OF c, of i r k] r by blast

lemma handle_same_stream:
  assumes c: "streams s" and g: "streaming i e T s" and n: "\<not> ends cfg i T (Message m)"
  shows "same_stream i e s (snd (handleSocketMessage cfg m s))"
proof -
  consider (a) "msg_channel m = Some (SERVICE_FRAMEWORK_RPC_CHANNEL cfg)"
    | (b) "msg_channel m \<noteq> Some (SERVICE_FRAMEWORK_RPC_CHANNEL cfg)"
          "msg_channel m = Some (SERVICE_FRAMEWORK_EVENT_CHANNEL cfg)"
    | (c) "msg_channel m \<noteq> Some (SERVICE_FRAMEWORK_RPC_CHANNEL cfg)"
          "msg_channel m \<noteq> Some (SERVICE_FRAMEWORK_EVENT_CHANNEL cfg)"
          "msg_channel m = Some (SERVICE_FRAMEWORK3_CHANNEL cfg)"
    | (d) "\<not> service_channel cfg m"
    unfolding service_channel_def by blast
  then show ?thesis
  proof cases
    case a
    show ?thesis
    proof (cases "msg_requestId m")
      case None
      then show ?thesis by (simp add: handle_rpc [OF a] same_stream_refl)
    next
      case (Some q)
      have "same_stream i e s (snd (emit ServiceFrameworkRpcEmitter (Some (show_int q))
                                 [msg_error m, msg_result m] s))"
        by (rule emit_same_stream) (rule not_disposer [OF c], simp)
      then show ?thesis using Some by (simp add: handle_rpc [OF a])
    qed
  next
    case b
    show ?thesis
    proof (cases "msg_event m")
      case None
      then show ?thesis by (simp add: handle_event [OF b] same_stream_refl)
    next
      case (Some ev)
      have "same_stream i e s (snd (emit ServiceFrameworkEventEmitter (ev_name ev) (concat_args (ev_args ev)) s))"
        by (rule emit_same_stream) (rule not_disposer [OF c], simp)
      then show ?thesis using Some by (simp add: handle_event [OF b])
    qed
  next
    case c3: c
    show ?thesis
    proof (cases "msg_requestId m")
      case None
      then show ?thesis by (simp add: handle_sf3 [OF c3] same_stream_refl)
    next
      case (Some q)
      have "same_stream i e s (snd (emit ServiceFramework3Emitter (Some (show_int q))
                   [msg_hadError m, msg_error m, msg_result m] s))"
        by (rule emit_same_stream) (rule not_disposer [OF c], simp)
      then show ?thesis using Some by (simp add: handle_sf3 [OF c3])
    qed
  next
    case d
    show ?thesis
    proof (cases "stream_id m")
      case None
      have "same_stream i e s (snd (emit Eventbus (msg_channel m) [event_js (msg_event m)] s))"
        by (rule emit_same_stream) (rule not_disposer [OF c], simp)
      then show ?thesis using None by (simp add: handle_generic [OF d])
    next
      case (Some j)
      then obtain ev where ev: "msg_event m = Some ev"
        by (auto simp: stream_id_def split: option.splits)
      show ?thesis
      proof (cases "eventEmitters s j")
        case None
        show ?thesis
          unfolding handle_stream_unknown [OF d Some None ev]
          by (rule same_stream_fields) (simp_all add: logger_error_def)
      next
        case (Some e')
        let ?em = "emit (StreamEmitter e') (ev_type ev) (concat_args (ev_args ev)) s"
        obtain x s1 where eq: "?em = (x, s1)" by (cases ?em) auto
        have nd: "i \<notin> disposers s (StreamEmitter e') (event_key (ev_type ev))"
        proof (cases "j = i")
          case True
          then have "e' = e" using Some g by (simp add: streaming_def)
          moreover have "event_key (ev_type ev) \<notin> set T"
            using n d \<open>stream_id m = Some j\<close> True ev by simp
          ultimately show ?thesis using g by (simp add: streaming_def)
        next
          case False
          then show ?thesis using streamsD(3) [OF c Some] by blast
        qed
        have "same_stream i e s (snd ?em)" using nd by (rule emit_same_stream)
        then have f1: "same_stream i e s s1" using eq by simp
        have "streams (snd ?em)" using c by (rule streams_emit)
        then have c1: "streams s1" using eq by simp
        have f2: "same_stream i e s1 (snd (emit Eventbus (msg_channel m) [event_js (msg_event m)] s1))"
          by (rule emit_same_stream) (rule not_disposer [OF c1], simp)
        have f3: "same_stream i e s (snd (emit Eventbus (msg_channel m) [event_js (msg_event m)] s1))"
          using same_stream_trans [OF f1 f2] .
        show ?thesis
          unfolding handle_stream_known [OF d \<open>stream_id m = Some j\<close> Some ev] eq
          using f1 f3 by (cases x) simp_all
      qed
    qed
  qed
qed

lemma callSFM_table:
  "eventEmitters (snd (callServiceFrameworkMethod sv me as so tmo s)) = eventEmitters s \<and>
   (\<forall>r. r \<noteq> ServiceFrameworkRpcEmitter \<longrightarrow>
      listeners (snd (callServiceFrameworkMethod sv me as so tmo s)) r = listeners s r) \<and>
   error_log (snd (callServiceFrameworkMethod sv me as so tmo s)) = error_log s \<and>
   emitted (snd (callServiceFrameworkMethod sv me as so tmo s)) = emitted s"
  by (cases "socket s") (simp_all add: callSFM_open callSFM_closed)

lemma unsubscribe_table:
  "eventEmitters (snd (unsubscribeEventFromServer cfg sv me so s)) = eventEmitters s \<and>
   (\<forall>r. r \<noteq> ServiceFrameworkRpcEmitter \<longrightarrow>
      listeners (snd (unsubscribeEventFromServer cfg sv me so s)) r = listeners s r) \<and>
   error_log (snd (unsubscribeEventFromServer cfg sv me so s)) = error_log s \<and>
   emitted (snd (unsubscribeEventFromServer cfg sv me so s)) = emitted s"
proof (cases "socket s")
  case None
  then show ?thesis by (simp add: unsubscribeEventFromServer_def)
next
  case (Some sid)
  have "snd (unsubscribeEventFromServer cfg sv me so s) =
        snd (callServiceFrameworkMethod ''serviceFramework'' ''unsubscribeEvent''
               [JStr sid, JStr sv, undefined_or_str me] so (SERVICE_FRAMEWORK_RPC_TIMEOUT_MS cfg) s)"
    using Some by (simp add: unsubscribeEventFromServer_def split: prod.splits)
  then show ?thesis using callSFM_table by simp
qed

lemma fold_reaction_table:
  "eventEmitters (fold (run_reaction cfg) rs s) = eventEmitters s \<and>
   (\<forall>r. r \<noteq> ServiceFrameworkRpcEmitter \<longrightarrow> listeners (fold (run_reaction cfg) rs s) r = listeners s r) \<and>
   error_log (fold (run_reaction cfg) rs s) = error_log s \<and>
   emitted (fold (run_reaction cfg) rs s) = emitted s"
proof (induction rs arbitrary: s)
  case Nil
  show ?case by simp
next
  case (Cons r rs)
  obtain sv me so where r: "r = UnsubscribeEvent sv me so" by (cases r) auto
  show ?case
    using Cons [of "run_reaction cfg r s"] unsubscribe_table [of cfg sv me so s] r by simp
qed

lemma run_microtasks_table:
  "eventEmitters (run_microtasks cfg s) = eventEmitters s \<and>
   (\<forall>r. r \<noteq> ServiceFrameworkRpcEmitter \<longrightarrow> listeners (run_microtasks cfg s) r = listeners s r) \<and>
   error_log (run_microtasks cfg s) = error_log s \<and>
   emitted (run_microtasks cfg s) = emitted s"
  unfolding run_microtasks_def
  using fold_reaction_table [of cfg "microtasks s" "s\<lparr>microtasks := []\<rparr>"] by simp

lemma register_table:
  "eventEmitters (snd (registerEventListener cfg n cb so s)) = eventEmitters s \<and>
   listeners (snd (registerEventListener cfg n cb so s)) (StreamEmitter e) = listeners s (StreamEmitter e)"
proof (cases "socket s")
  case None
  show ?thesis unfolding register_closed_state [OF None] by (simp add: on_def)
next
  case (Some sid)
  show ?thesis by (simp add: register_open [OF Some])
qed

lemma dispose_table:
  "eventEmitters (dispose i s) = eventEmitters s \<and>
   listeners (dispose i s) (StreamEmitter e) = listeners s (StreamEmitter e)"
  by (simp add: dispose_def disposalAction_def then_do_table removeListener_def)

lemma task_same_stream:
  assumes c: "streams s" and g: "streaming i e T s"
      and n: "\<not> ends cfg i T a" "\<not> reconsumes i a"
  shows "same_stream i e s (task cfg a s)"
proof (cases a)
  case (Message m)
  then show ?thesis using handle_same_stream [OF c g] n by simp
next
  case (TimerExpired u)
  show ?thesis unfolding TimerExpired task.simps
    by (rule same_stream_fields) (simp_all add: fireTimer_table)
next
  case (CallServiceFrameworkMethod sv me as so tmo)
  show ?thesis unfolding CallServiceFrameworkMethod task.simps
    by (rule same_stream_fields) (simp_all add: callSFM_table)
next
  case NextRequestId
  show ?thesis unfolding NextRequestId task.simps
    by (rule same_stream_fields) (simp_all add: nextRequestId_def)
next
  case (RegisterEventListener n cb so)
  show ?thesis unfolding RegisterEventListener task.simps
    by (rule same_stream_fields) (simp_all add: register_table)
next
  case (Dispose j)
  show ?thesis unfolding Dispose task.simps
    by (rule same_stream_fields) (simp_all add: dispose_table)
next
  case (CallMethod sv me as eo)
  show ?thesis unfolding CallMethod task.simps
    by (rule same_stream_fields)
       (simp_all add: callMethod_def new_promise_def logger_error_def split: option.splits)
next
  case (ConsumeEventEmitter j ns d)
  have j: "j \<noteq> i" using n(2) ConsumeEventEmitter by simp
  have "eventEmitters s i = Some e" using g by (simp add: streaming_def)
  then have "e < next_emitter s" by (rule streamsD(1) [OF c])
  then have e: "StreamEmitter e \<noteq> StreamEmitter (next_emitter s)" by simp
  show ?thesis unfolding ConsumeEventEmitter task.simps
    using consume_state [of j ns d s] j e by (simp add: same_stream_def disposers_def)
next
  case (Listen r k l)
  show ?thesis unfolding Listen task.simps
    by (auto simp add: same_stream_def disposers_def on_def)
next
  case Close
  show ?thesis unfolding Close task.simps
    by (rule same_stream_fields) (simp_all add: close_def split: option.splits)
qed

lemma step_streaming:
  assumes c: "streams s" and g: "streaming i e T s"
      and n: "\<not> ends cfg i T a" "\<not> reconsumes i a"
  shows "streaming i e T (step cfg a s)"
proof -
  have 1: "streaming i e T (task cfg a s)"
    using streaming_same [OF g task_same_stream [OF c g n]] .
  have "same_stream i e (task cfg a s) (run_microtasks cfg (task cfg a s))"
    by (rule same_stream_fields) (simp_all add: run_microtasks_table)
  then show ?thesis unfolding step_def using streaming_same [OF 1] by simp
qed

lemma run_streaming:
  "streams s \<Longrightarrow> streaming i e T s \<Longrightarrow> \<forall>a \<in> set ops. \<not> ends cfg i T a \<and> \<not> reconsumes i a \<Longrightarrow>
   streaming i e T (run cfg ops s)"
proof (induction ops arbitrary: s)
  case Nil
  then show ?case by (simp add: run_def)
next
  case (Cons a ops)
  have 1: "streams (step cfg a s)" using Cons.prems(1) by (rule streams_step)
  have 2: "streaming i e T (step cfg a s)"
    using step_streaming [OF Cons.prems(1,2)] Cons.prems(3) by simp
  have "run cfg (a # ops) s = run cfg ops (step cfg a s)" by (simp add: run_def)
  then show ?case using Cons.IH [OF 1 2] Cons.prems(3) by simp
qed
text \<open>An id that is not in the table stays out of it until it is consumed again.\<close>

lemma handle_table_None:
  "eventEmitters s i = None \<Longrightarrow> eventEmitters (snd (handleSocketMessage cfg m s)) i = None"
proof (rule handle_preserves [where P = "\<lambda>s. eventEmitters s i = None"])
  show "eventEmitters (snd (emit r n as s)) i = None" if "eventEmitters s i = None" for r n as s
    using emit_table_None [of s i r n as] that by simp
  show "eventEmitters (logger_error e s) i = None" if "eventEmitters s i = None" for e s
    using that by (simp add: logger_error_def)
qed

lemma task_table_None:
  assumes g: "eventEmitters s i = None" and n: "\<not> reconsumes i a"
  shows "eventEmitters (task cfg a s) i = None"
proof (cases a)
  case (Message m)
  then show ?thesis using handle_table_None [OF g] by simp
next
  case (TimerExpired u)
  then show ?thesis using g by (simp add: fireTimer_table)
next
  case (CallServiceFrameworkMethod sv me as so tmo)
  then show ?thesis using g by (simp add: callSFM_table)
next
  case NextRequestId
  then show ?thesis using g by (simp add: nextRequestId_def)
next
  case (RegisterEventListener n cb so)
  then show ?thesis using g by (simp add: register_table)
next
  case (Dispose j)
  then show ?thesis using g by (simp add: dispose_table)
next
  case (CallMethod sv me as eo)
  then show ?thesis using g
    by (simp add: callMethod_def new_promise_def logger_error_def split: option.splits)
next
  case (ConsumeEventEmitter j ns d)
  then show ?thesis using g n consume_state [of j ns d s] by simp
next
  case (Listen r k l)
  then show ?thesis using g by (simp add: on_def)
next
  case Close
  then show ?thesis using g by (simp add: close_def split: option.splits)
qed

lemma step_table_None:
  assumes "eventEmitters s i = None" and "\<not> reconsumes i a"
  shows "eventEmitters (step cfg a s) i = None"
  unfolding step_def using task_table_None [OF assms] by (simp add: run_microtasks_table)

lemma run_table_None:
  "eventEmitters s i = None \<Longrightarrow> \<forall>a \<in> set ops. \<not> reconsumes i a \<Longrightarrow>
   eventEmitters (run cfg ops s) i = None"
proof (induction ops arbitrary: s)
  case Nil
  then show ?case by (simp add: run_def)
next
  case (Cons a ops)
  have 1: "eventEmitters (step cfg a s) i = None"
    using step_table_None [OF Cons.prems(1)] Cons.prems(2) by simp
  have "run cfg (a # ops) s = run cfg ops (step cfg a s)" by (simp add: run_def)
  then show ?case using Cons.IH [OF 1] Cons.prems(2) by simp
qed
text \<open>The cases of a stream event.\<close>

lemma stream_event_delivered:
  assumes nz: "i \<noteq> 0"
      and m: "\<not> service_channel cfg m" "msg_event m = Some ev" "ev_eventEmitterId ev = Some i"
      and tab: "eventEmitters s i = Some e"
  shows "take (Suc (length (emitted s))) (emitted (snd (handleSocketMessage cfg m s))) =
           emitted s @ [(StreamEmitter e, ev_type ev, concat_args (ev_args ev))] \<and>
         error_log (snd (handleSocketMessage cfg m s)) = error_log s"
proof -
  let ?em = "emit (StreamEmitter e) (ev_type ev) (concat_args (ev_args ev)) s"
  have h: "handleSocketMessage cfg m s =
             (case ?em of (Threw x, s') \<Rightarrow> (Threw x, s')
              | (Returned u, s') \<Rightarrow> emit Eventbus (msg_channel m) [event_js (msg_event m)] s')"
    by (rule handle_stream_known [OF m(1) stream_idI [OF m(2) m(3) nz] tab m(2)])
  obtain x s' where em: "?em = (x, s')" by (cases ?em) auto
  have e1: "emitted s' = emitted s @ [(StreamEmitter e, ev_type ev, concat_args (ev_args ev))]"
    using emit_emitted [of "StreamEmitter e" "ev_type ev" "concat_args (ev_args ev)" s] em by simp
  have l1: "error_log s' = error_log s"
    using emit_error_log [of "StreamEmitter e" "ev_type ev" "concat_args (ev_args ev)" s] em by simp
  show ?thesis
  proof (cases x)
    case (Threw y)
    then show ?thesis using e1 l1 em by (simp add: h)
  next
    case (Returned u)
    then show ?thesis using e1 l1 em by (simp add: h emit_emitted emit_error_log)
  qed
qed

lemma terminal_event_removes:
  assumes nz: "i \<noteq> 0"
      and m: "\<not> service_channel cfg m" "msg_event m = Some ev" "ev_eventEmitterId ev = Some i"
      and g: "streaming i e T s" and ty: "event_key (ev_type ev) \<in> set T"
  shows "eventEmitters (snd (handleSocketMessage cfg m s)) i = None"
proof -
  have tab: "eventEmitters s i = Some e" using g by (simp add: streaming_def)
  have "i \<in> disposers s (StreamEmitter e) (event_key (ev_type ev))"
    using g ty by (simp add: streaming_def)
  then have reg: "DisposeEmitter i \<in>
                    entry_listener ` set (listeners s (StreamEmitter e) (event_key (ev_type ev)))"
    by (simp add: disposers_def)
  let ?em = "emit (StreamEmitter e) (ev_type ev) (concat_args (ev_args ev)) s"
  have em: "eventEmitters (snd ?em) i = None" "fst ?em = Returned ()"
    using emit_table_None [of s i "StreamEmitter e" "ev_type ev", OF disjI2, OF reg] tab by simp_all
  obtain s' where s': "?em = (Returned (), s')" using em(2) by (cases ?em) auto
  have "eventEmitters s' i = None" using em(1) s' by simp
  then have "eventEmitters (snd (emit Eventbus (msg_channel m) [event_js (msg_event m)] s')) i = None"
    using emit_table_None [of s' i] by simp
  then show ?thesis
    using s' by (simp add: handle_stream_known [OF m(1) stream_idI [OF m(2) m(3) nz] tab m(2)])
qed

lemma consume_streaming:
  "streaming i (next_emitter s) (case d of None \<Rightarrow> [] | Some ts \<Rightarrow> ts)
     (snd (consumeEventEmitter i ns d s))"
  by (simp add: streaming_def consume_table consume_disposers)

section \<open>The claims\<close>

text \<open>
  C1. In every state reached from the constructor with the connection open, a call issued
  through \<^verbatim>\<open>callServiceFrameworkMethod\<close> with a timeout \<open>T\<close> (an integral number of
  milliseconds below \<open>2^53\<close> in absolute value) returns a promise that stays pending, with
  its timer pending, through every sequence of tasks that contains neither the response
  carrying its request id nor the expiry of its timer. If the response is then handled
  first, the handler returns and the promise is fulfilled with the result, or rejected with
  the error when the error is truthy. If the timer expires first, the promise is rejected
  with the string \<^verbatim>\<open>Timeout after T for service/method\<close>, \<open>T\<close> in decimal. In both
  cases the promise keeps that state through every later sequence of tasks, the other event
  among them. A response handled at any time after the timeout raises nothing, finds no
  listener and changes nothing of the state but the record of the \<^verbatim>\<open>emit\<close> call.
\<close>

theorem call_settles_exactly_once:
  fixes s :: bus and cfg :: config and m :: message
    and serviceName methodName :: string and methodArgs :: "jsval list"
    and serviceOptions :: jsval and timeout :: int and between later :: "op list"
  defines "p \<equiv> fst (callServiceFrameworkMethod serviceName methodName methodArgs serviceOptions timeout s)"
      and "s1 \<equiv> snd (callServiceFrameworkMethod serviceName methodName methodArgs serviceOptions timeout s)"
      and "t \<equiv> \<lparr>tm_requestId = rpcRequestId s,
                 tm_promise = fst (callServiceFrameworkMethod serviceName methodName methodArgs
                                     serviceOptions timeout s),
                 tm_timeout = timeout, tm_serviceName = serviceName, tm_methodName = methodName\<rparr>"
      and "by_response \<equiv> (if truthy (msg_error m) then Rejected (Value (msg_error m))
                            else Fulfilled (msg_result m))"
      and "by_timeout \<equiv> Rejected (Value (JStr (''Timeout after '' @ show_int timeout @ '' for '' @
                                              serviceName @ ''/'' @ methodName)))"
  defines "s2 \<equiv> run cfg between s1"
  assumes reach: "s = run cfg ops (constructor sid)"
      and opn: "socket s \<noteq> None"
      and safe: "\<bar>timeout\<bar> < 2 ^ 53"
      and ch: "msg_channel m = Some (SERVICE_FRAMEWORK_RPC_CHANNEL cfg)"
      and rid: "msg_requestId m = Some (rpcRequestId s)"
      and quiet: "\<forall>a \<in> set between. \<not> hits cfg a t"
  shows "promise_state s2 p = Pending \<and> t \<in> set (timers s2) \<and>
         fst (handleSocketMessage cfg m s2) = Returned () \<and>
         promise_state (run cfg later (step cfg (Message m) s2)) p = by_response \<and>
         promise_state (run cfg later (step cfg (TimerExpired t) s2)) p = by_timeout \<and>
         handleSocketMessage cfg m (run cfg later (step cfg (TimerExpired t) s2)) =
           (Returned (),
            (run cfg later (step cfg (TimerExpired t) s2))
              \<lparr>emitted := emitted (run cfg later (step cfg (TimerExpired t) s2)) @
                 [(ServiceFrameworkRpcEmitter, Some (show_int (rpcRequestId s)),
                   [msg_error m, msg_result m])]\<rparr>)"
proof -
  have c: "tracked s" using reach reachable_tracked by simp
  note cf = call_in_flight [OF c opn, of serviceName methodName methodArgs serviceOptions timeout]
  have pe: "p = length (promises s)" using cf by (simp add: p_def)
  have te: "t = \<lparr>tm_requestId = rpcRequestId s, tm_promise = length (promises s),
                 tm_timeout = timeout, tm_serviceName = serviceName, tm_methodName = methodName\<rparr>"
    using cf by (simp add: t_def)
  have f: "tm_requestId t = rpcRequestId s" "tm_promise t = p" "tm_timeout t = timeout"
    "tm_serviceName t = serviceName" "tm_methodName t = methodName"
    by (simp_all add: te pe)
  have t1: "tracked s1" and f1: "in_flight t s1" using cf by (simp_all add: s1_def te)
  have t2: "tracked s2" using run_tracked [OF t1] by (simp add: s2_def)
  have f2: "in_flight t s2" using run_in_flight [OF t1 f1 quiet] by (simp add: s2_def)
  have rid': "msg_requestId m = Some (tm_requestId t)" using rid f(1) by simp
  have 1: "promise_state s2 p = Pending" "t \<in> set (timers s2)"
    using f2 f(2) by (simp_all add: in_flight_def promise_state_def)
  note 2 = response_settles [OF t2 f2 ch rid', of later]
  note 3 = timeout_settles [OF t2 f2 ch rid', of later]
  show ?thesis
    using 1 2 3 unfolding f by_response_def by_timeout_def timeout_message_def by simp
qed

theorem call_settles_exactly_once_witness:
  "promise_state
     (run sample_config
        [TimerExpired \<lparr>tm_requestId = 2, tm_promise = 0, tm_timeout = 5000,
                        tm_serviceName = ''svc'', tm_methodName = ''m''\<rparr>]
        (step sample_config (Message (rpc_response sample_config (Some 2) JUndefined (JStr ''ok'')))
           (run sample_config
              [CallServiceFrameworkMethod ''svc'' ''other'' [] JNull 10,
               Message (rpc_response sample_config (Some 3) JUndefined JNull)]
              (snd (callServiceFrameworkMethod ''svc'' ''m'' [JNum 1] JNull 5000
                      (run sample_config [NextRequestId] (constructor ''sock'')))))))
     0 = Fulfilled (JStr ''ok'') \<and>
   promise_state
     (run sample_config
        [Message (rpc_response sample_config (Some 2) JUndefined (JStr ''ok''))]
        (step sample_config
           (TimerExpired \<lparr>tm_requestId = 2, tm_promise = 0, tm_timeout = 5000,
                           tm_serviceName = ''svc'', tm_methodName = ''m''\<rparr>)
           (run sample_config
              [CallServiceFrameworkMethod ''svc'' ''other'' [] JNull 10,
               Message (rpc_response sample_config (Some 3) JUndefined JNull)]
              (snd (callServiceFrameworkMethod ''svc'' ''m'' [JNum 1] JNull 5000
                      (run sample_config [NextRequestId] (constructor ''sock'')))))))
     0 = Rejected (Value (JStr ''Timeout after 5000 for svc/m''))"
proof -
  let ?s = "run sample_config [NextRequestId] (constructor ''sock'')"
  let ?m = "rpc_response sample_config (Some 2) JUndefined (JStr ''ok'')"
  let ?t = "\<lparr>tm_requestId = 2, tm_promise = 0, tm_timeout = 5000,
             tm_serviceName = ''svc'', tm_methodName = ''m''\<rparr>"
  let ?between = "[CallServiceFrameworkMethod ''svc'' ''other'' [] JNull 10,
                   Message (rpc_response sample_config (Some 3) JUndefined JNull)]"
  have p: "fst (callServiceFrameworkMethod ''svc'' ''m'' [JNum 1] JNull 5000 ?s) = 0"
          "rpcRequestId ?s = 2" "show_int 5000 = ''5000''"
    by code_simp+
  have h: "socket ?s \<noteq> None"
    by code_simp
  have b: "\<bar>5000::int\<bar> < 2 ^ 53"
    by simp
  have m: "msg_channel ?m = Some (SERVICE_FRAMEWORK_RPC_CHANNEL sample_config)"
          "msg_requestId ?m = Some (rpcRequestId ?s)"
    by (simp_all add: rpc_response_def p)
  have q: "\<forall>a \<in> set ?between.
             \<not> hits sample_config a
                 \<lparr>tm_requestId = rpcRequestId ?s,
                   tm_promise = fst (callServiceFrameworkMethod ''svc'' ''m'' [JNum 1] JNull 5000 ?s),
                   tm_timeout = 5000, tm_serviceName = ''svc'', tm_methodName = ''m''\<rparr>"
    by (simp add: p rpc_response_def)
  note by_response =
    call_settles_exactly_once [OF refl h b m q, where later = "[TimerExpired ?t]",
      THEN conjunct2, THEN conjunct2, THEN conjunct2, THEN conjunct1]
  note by_timeout =
    call_settles_exactly_once [OF refl h b m q, where later = "[Message ?m]",
      THEN conjunct2, THEN conjunct2, THEN conjunct2, THEN conjunct2, THEN conjunct1]
  have 1: "promise_state
     (run sample_config [TimerExpired ?t] (step sample_config (Message ?m)
        (run sample_config ?between
           (snd (callServiceFrameworkMethod ''svc'' ''m'' [JNum 1] JNull 5000 ?s))))) 0 =
     Fulfilled (JStr ''ok'')"
    using by_response by (simp add: p rpc_response_def)
  have 2: "promise_state
     (run sample_config [Message ?m] (step sample_config (TimerExpired ?t)
        (run sample_config ?between
           (snd (callServiceFrameworkMethod ''svc'' ''m'' [JNum 1] JNull 5000 ?s))))) 0 =
     Rejected (Value (JStr ''Timeout after 5000 for svc/m''))"
    using by_timeout by (simp add: p)
  show ?thesis using 1 2 by simp
qed

text \<open>
  C2. The counter starts at 1. In every state reached from the constructor the counter is
  at least 1; the id generator handed to the \<^verbatim>\<open>ClientComponent\<close> returns the counter, and
  \<^verbatim>\<open>callServiceFrameworkMethod\<close> sends the counter as the \<^verbatim>\<open>requestId\<close>. When the id so
  handed out is below \<open>2^53\<close>, then after the call through either path, and after any
  further run of the event bus, the counter is strictly larger than that id: every later
  call receives a strictly larger id, and the id is not handed out again.
\<close>

theorem request_ids_strictly_increase:
  assumes reach: "s = run cfg before (constructor sid)"
      and exact: "rpcRequestId s < 2 ^ 53"
  shows "rpcRequestId (constructor sid) = 1 \<and> 1 \<le> rpcRequestId s \<and>
         fst (nextRequestId s) = rpcRequestId s \<and>
         rpcRequestId s < rpcRequestId (run cfg ops (step cfg NextRequestId s)) \<and>
         rpcRequestId s < rpcRequestId (run cfg ops
            (step cfg (CallServiceFrameworkMethod serviceName methodName methodArgs serviceOptions timeout) s)) \<and>
         (socket s \<noteq> None \<longrightarrow>
            sent (snd (callServiceFrameworkMethod serviceName methodName methodArgs serviceOptions timeout s)) =
              sent s @ [\<lparr>req_serviceName = serviceName, req_methodName = methodName,
                         req_methodArgs = methodArgs, req_serviceOptions = serviceOptions,
                         req_requestId = rpcRequestId s\<rparr>])"
proof -
  have one: "1 \<le> rpcRequestId s"
    using reach consistentD(1) reachable_consistent by simp
  have g: "rpcRequestId s < rpcRequestId (task cfg NextRequestId s)"
    by (simp add: nextRequestId_def)
  have c: "rpcRequestId s < rpcRequestId (task cfg
             (CallServiceFrameworkMethod serviceName methodName methodArgs serviceOptions timeout) s)"
    by (simp add: callSFM_counter)
  have later: "rpcRequestId s < rpcRequestId (task cfg a s) \<Longrightarrow>
               rpcRequestId s < rpcRequestId (run cfg ops (step cfg a s))" for a
    using run_microtasks_counter [of "task cfg a s" cfg] run_counter [of "step cfg a s" cfg ops]
    by (simp add: step_def)
  show ?thesis
    using one later [OF g] later [OF c]
    by (auto simp add: nextRequestId_def callSFM_open constructor_def)
qed

theorem request_ids_strictly_increase_witness:
  "fst (nextRequestId (run sample_config [CallServiceFrameworkMethod ''svc'' ''a'' [] JNull 10]
                         (constructor ''sock''))) = 2 \<and>
   2 < rpcRequestId (run sample_config
          [CallServiceFrameworkMethod ''svc'' ''m'' [] JNull 5000, NextRequestId]
          (step sample_config NextRequestId
             (run sample_config [CallServiceFrameworkMethod ''svc'' ''a'' [] JNull 10]
                (constructor ''sock'')))) \<and>
   sent (snd (callServiceFrameworkMethod ''svc'' ''m'' [] JNull 5000
                (run sample_config [CallServiceFrameworkMethod ''svc'' ''a'' [] JNull 10]
                   (constructor ''sock'')))) =
     [\<lparr>req_serviceName = ''svc'', req_methodName = ''a'', req_methodArgs = [],
       req_serviceOptions = JNull, req_requestId = 1\<rparr>,
      \<lparr>req_serviceName = ''svc'', req_methodName = ''m'', req_methodArgs = [],
       req_serviceOptions = JNull, req_requestId = 2\<rparr>]"
proof -
  let ?s = "run sample_config [CallServiceFrameworkMethod ''svc'' ''a'' [] JNull 10] (constructor ''sock'')"
  have c: "rpcRequestId ?s = 2" "socket ?s \<noteq> None"
          "sent ?s = [\<lparr>req_serviceName = ''svc'', req_methodName = ''a'', req_methodArgs = [],
                       req_serviceOptions = JNull, req_requestId = 1\<rparr>]"
    by code_simp+
  have b: "rpcRequestId ?s < 2 ^ 53" by (simp add: c)
  show ?thesis
    using request_ids_strictly_increase [OF refl b,
            where ops = "[CallServiceFrameworkMethod ''svc'' ''m'' [] JNull 5000, NextRequestId]"
              and serviceName = "''svc''" and methodName = "''m''" and methodArgs = "[]"
              and serviceOptions = JNull and timeout = 5000]
    by (simp add: c)
qed

text \<open>
  C3. As amended. The emitters on which the handler calls \<^verbatim>\<open>emit\<close> for an envelope,
  whether it returns or raises: for an envelope of the RPC, event or \<^verbatim>\<open>ClientComponent\<close>
  channel, that channel's emitter when the envelope carries the field the channel reads
  (\<^verbatim>\<open>requestId\<close>, \<^verbatim>\<open>event\<close>), none when it does not; for any other envelope that the
  test of line 80 does not take for a stream event, the generic bus; for a stream event
  whose id is registered, that stream's emitter and then the generic bus as well, unless
  the first \<^verbatim>\<open>emit\<close> raises (an \<^verbatim>\<open>error\<close> event without listener): then the stream's
  emitter only; for a stream event whose id is not registered, none. The handler logs, at
  error level, exactly in the last case.
\<close>

theorem router_destinations:
  "map fst (drop (length (emitted s)) (emitted (snd (handleSocketMessage cfg m s)))) =
     (if msg_channel m = Some (SERVICE_FRAMEWORK_RPC_CHANNEL cfg) then
        (case msg_requestId m of None \<Rightarrow> [] | Some r \<Rightarrow> [ServiceFrameworkRpcEmitter])
      else if msg_channel m = Some (SERVICE_FRAMEWORK_EVENT_CHANNEL cfg) then
        (case msg_event m of None \<Rightarrow> [] | Some ev \<Rightarrow> [ServiceFrameworkEventEmitter])
      else if msg_channel m = Some (SERVICE_FRAMEWORK3_CHANNEL cfg) then
        (case msg_requestId m of None \<Rightarrow> [] | Some r \<Rightarrow> [ServiceFramework3Emitter])
      else
        (case stream_id m of
           None \<Rightarrow> [Eventbus]
         | Some i \<Rightarrow>
             (case (eventEmitters s i, msg_event m) of
                (Some e, Some ev) \<Rightarrow>
                  if error_event_unhandled s (StreamEmitter e) (ev_type ev) then [StreamEmitter e]
                  else [StreamEmitter e, Eventbus]
              | _ \<Rightarrow> []))) \<and>
   error_log (snd (handleSocketMessage cfg m s)) =
     (if service_channel cfg m then error_log s
      else
        (case (stream_id m, msg_event m) of
           (Some i, Some ev) \<Rightarrow>
             (case eventEmitters s i of
                None \<Rightarrow> error_log s @ [EmitterNotFound i (ev_type ev) (ev_args ev)]
              | Some e \<Rightarrow> error_log s)
         | _ \<Rightarrow> error_log s))"
proof -
  consider (a) "msg_channel m = Some (SERVICE_FRAMEWORK_RPC_CHANNEL cfg)"
    | (b) "msg_channel m \<noteq> Some (SERVICE_FRAMEWORK_RPC_CHANNEL cfg)"
          "msg_channel m = Some (SERVICE_FRAMEWORK_EVENT_CHANNEL cfg)"
    | (c) "msg_channel m \<noteq> Some (SERVICE_FRAMEWORK_RPC_CHANNEL cfg)"
          "msg_channel m \<noteq> Some (SERVICE_FRAMEWORK_EVENT_CHANNEL cfg)"
          "msg_channel m = Some (SERVICE_FRAMEWORK3_CHANNEL cfg)"
    | (d) "\<not> service_channel cfg m"
    unfolding service_channel_def by blast
  then show ?thesis
  proof cases
    case a
    then have sc: "service_channel cfg m" by (simp add: service_channel_def)
    show ?thesis
      using a sc
      by (cases "msg_requestId m") (simp_all add: handle_rpc [OF a] emit_emitted emit_error_log)
  next
    case b
    then have sc: "service_channel cfg m" by (simp add: service_channel_def)
    show ?thesis
      using b sc
      by (cases "msg_event m") (simp_all add: handle_event [OF b] emit_emitted emit_error_log)
  next
    case c
    then have sc: "service_channel cfg m" by (simp add: service_channel_def)
    show ?thesis
      using c sc
      by (cases "msg_requestId m") (simp_all add: handle_sf3 [OF c] emit_emitted emit_error_log)
  next
    case d
    then have nd: "msg_channel m \<noteq> Some (SERVICE_FRAMEWORK_RPC_CHANNEL cfg)"
          "msg_channel m \<noteq> Some (SERVICE_FRAMEWORK_EVENT_CHANNEL cfg)"
          "msg_channel m \<noteq> Some (SERVICE_FRAMEWORK3_CHANNEL cfg)"
      by (simp_all add: service_channel_def)
    show ?thesis
    proof (cases "stream_id m")
      case None
      then show ?thesis
        using nd d by (simp add: handle_generic [OF d None] emit_emitted emit_error_log)
    next
      case (Some i)
      then obtain ev where ev: "msg_event m = Some ev"
        by (auto simp: stream_id_def split: option.splits)
      show ?thesis
      proof (cases "eventEmitters s i")
        case None
        show ?thesis
          using nd d \<open>stream_id m = Some i\<close> None ev
          by (simp add: handle_stream_unknown [OF d Some None ev] logger_error_def)
      next
        case (Some e)
        show ?thesis
        proof (cases "error_event_unhandled s (StreamEmitter e) (ev_type ev)")
          case True
          show ?thesis
            using nd d \<open>stream_id m = Some i\<close> Some ev True
            by (simp add: handle_stream_known_threw [OF d \<open>stream_id m = Some i\<close> Some ev True])
        next
          case False
          show ?thesis
            using nd d \<open>stream_id m = Some i\<close> Some ev False
            by (simp add: handle_stream_known_returned [OF d \<open>stream_id m = Some i\<close> Some ev False]
                  emit_emitted emit_error_log)
        qed
      qed
    qed
  qed
qed

theorem router_destinations_witness:
  "map fst (emitted (snd (handleSocketMessage sample_config (stream_event 42 ''data'' (JArr [JNum 7]))
        (snd (consumeStream 42 (constructor ''sock'')))))) = [StreamEmitter 0, Eventbus] \<and>
   map fst (emitted (snd (handleSocketMessage sample_config (stream_event 42 ''error'' JNull)
        (snd (consumeStream 42 (constructor ''sock'')))))) = [StreamEmitter 0] \<and>
   map fst (emitted (snd (handleSocketMessage sample_config
        (rpc_response sample_config None JUndefined (JStr ''ok''))
        (snd (consumeStream 42 (constructor ''sock'')))))) = [] \<and>
   error_log (snd (handleSocketMessage sample_config (stream_event 43 ''data'' JNull)
        (snd (consumeStream 42 (constructor ''sock''))))) = [EmitterNotFound 43 (Some ''data'') JNull]"
proof -
  let ?s = "snd (consumeStream 42 (constructor ''sock''))"
  let ?d = "stream_event 42 ''data'' (JArr [JNum 7])"
  let ?e = "stream_event 42 ''error'' JNull"
  let ?r = "rpc_response sample_config None JUndefined (JStr ''ok'')"
  let ?u = "stream_event 43 ''data'' JNull"
  have z: "length (emitted ?s) = 0" "error_log ?s = []" by code_simp+
  have c: "msg_channel ?d \<noteq> Some (SERVICE_FRAMEWORK_RPC_CHANNEL sample_config)"
          "msg_channel ?d \<noteq> Some (SERVICE_FRAMEWORK_EVENT_CHANNEL sample_config)"
          "msg_channel ?d \<noteq> Some (SERVICE_FRAMEWORK3_CHANNEL sample_config)"
          "msg_channel ?e \<noteq> Some (SERVICE_FRAMEWORK_RPC_CHANNEL sample_config)"
          "msg_channel ?e \<noteq> Some (SERVICE_FRAMEWORK_EVENT_CHANNEL sample_config)"
          "msg_channel ?e \<noteq> Some (SERVICE_FRAMEWORK3_CHANNEL sample_config)"
          "msg_channel ?r = Some (SERVICE_FRAMEWORK_RPC_CHANNEL sample_config)"
          "msg_requestId ?r = None"
          "\<not> service_channel sample_config ?u"
    by (simp_all add: stream_event_def rpc_response_def sample_config_def eventEmitterChannel_def
          service_channel_def)
  have v: "stream_id ?d = Some 42" "stream_id ?e = Some 42" "stream_id ?u = Some 43"
          "eventEmitters ?s 42 = Some 0" "eventEmitters ?s 43 = None"
          "\<not> error_event_unhandled ?s (StreamEmitter 0) (Some ''data'')"
          "error_event_unhandled ?s (StreamEmitter 0) (Some ''error'')"
    by code_simp+
  have 1: "map fst (emitted (snd (handleSocketMessage sample_config ?d ?s))) = [StreamEmitter 0, Eventbus]"
    using router_destinations [of ?s sample_config ?d, THEN conjunct1]
    by (simp add: z c v) (simp add: stream_event_def v)
  have 2: "map fst (emitted (snd (handleSocketMessage sample_config ?e ?s))) = [StreamEmitter 0]"
    using router_destinations [of ?s sample_config ?e, THEN conjunct1]
    by (simp add: z c v) (simp add: stream_event_def v)
  have 3: "map fst (emitted (snd (handleSocketMessage sample_config ?r ?s))) = []"
    using router_destinations [of ?s sample_config ?r, THEN conjunct1]
    by (simp add: z c)
  have 4: "error_log (snd (handleSocketMessage sample_config ?u ?s)) =
             [EmitterNotFound 43 (Some ''data'') JNull]"
    using router_destinations [of ?s sample_config ?u, THEN conjunct2]
    by (simp add: z c v) (simp add: stream_event_def v z)
  show ?thesis using 1 2 3 4 by simp
qed

text \<open>
  The claim as stated fails: a stream event for the registered id 42 reaches the listener of
  the stream emitter and the listener of the generic bus.
\<close>

theorem stream_event_reaches_emitter_and_bus:
  "map fst (emitted (run sample_config
      [ConsumeEventEmitter 42 [''data''] (Some [''end'']),
       Listen (StreamEmitter 0) ''data'' 1,
       Listen Eventbus (eventEmitterChannel 42) 2,
       Message (stream_event 42 ''data'' (JArr [JNum 7]))] (constructor ''sock''))) =
   [StreamEmitter 0, Eventbus] \<and>
   map fst (delivered (run sample_config
      [ConsumeEventEmitter 42 [''data''] (Some [''end'']),
       Listen (StreamEmitter 0) ''data'' 1,
       Listen Eventbus (eventEmitterChannel 42) 2,
       Message (stream_event 42 ''data'' (JArr [JNum 7]))] (constructor ''sock''))) = [1, 2]"
  by code_simp

text \<open>
  C4. As amended: when the socket is already \<^verbatim>\<open>null\<close>, neither \<^verbatim>\<open>callMethod\<close> nor
  \<^verbatim>\<open>callServiceFrameworkMethod\<close> hands anything to the transport; \<^verbatim>\<open>callMethod\<close> logs an
  error and its promise is fulfilled with \<^verbatim>\<open>undefined\<close>; the promise of
  \<^verbatim>\<open>callServiceFrameworkMethod\<close> is rejected at once.
\<close>

theorem call_on_closed_connection:
  assumes "socket s = None"
  shows "sent (snd (callMethod serviceName methodName methodArgs extraOptions s)) = sent s \<and>
         xhr_requests (snd (callMethod serviceName methodName methodArgs extraOptions s)) =
           xhr_requests s \<and>
         error_log (snd (callMethod serviceName methodName methodArgs extraOptions s)) =
           error_log s @ [BusClosedCallMethod serviceName methodName] \<and>
         promise_state (snd (callMethod serviceName methodName methodArgs extraOptions s))
           (fst (callMethod serviceName methodName methodArgs extraOptions s)) = Fulfilled JUndefined \<and>
         sent (snd (callServiceFrameworkMethod serviceName methodName args serviceOptions timeout s)) =
           sent s \<and>
         xhr_requests (snd (callServiceFrameworkMethod serviceName methodName args serviceOptions timeout s)) =
           xhr_requests s \<and>
         (\<exists>e. promise_state
                (snd (callServiceFrameworkMethod serviceName methodName args serviceOptions timeout s))
                (fst (callServiceFrameworkMethod serviceName methodName args serviceOptions timeout s)) =
              Rejected e)"
  using assms
  by (simp add: callSFM_closed callMethod_def new_promise_def logger_error_def promise_state_def)

theorem call_on_closed_connection_witness:
  "sent (snd (callMethod ''eventbus'' ''subscribe'' None JNull (snd (close (constructor ''sock''))))) = [] \<and>
   xhr_requests (snd (callMethod ''eventbus'' ''subscribe'' None JNull (snd (close (constructor ''sock''))))) = [] \<and>
   sent (snd (callServiceFrameworkMethod ''svc'' ''m'' [] JNull 5000 (snd (close (constructor ''sock''))))) = []"
proof -
  let ?s = "snd (close (constructor ''sock''))"
  have h: "socket ?s = None" by (simp add: close_def constructor_def)
  have e: "sent ?s = []" "xhr_requests ?s = []" by (simp_all add: close_def constructor_def)
  show ?thesis
    using call_on_closed_connection [OF h, of "''eventbus''" "''subscribe''" None JNull]
          call_on_closed_connection [OF h, of "''svc''" "''m''" None JNull "[]" JNull 5000]
    by (simp add: e)
qed

text \<open>
  The claim as stated fails: on a closed connection the promise of \<^verbatim>\<open>callMethod\<close> is
  fulfilled, not rejected.
\<close>

theorem callMethod_on_closed_connection_resolves:
  "promise_state (snd (callMethod ''eventbus'' ''subscribe'' None JNull (snd (close (constructor ''sock'')))))
     (fst (callMethod ''eventbus'' ''subscribe'' None JNull (snd (close (constructor ''sock''))))) =
   Fulfilled JUndefined"
  by (simp add: callMethod_def close_def constructor_def new_promise_def logger_error_def promise_state_def)

text \<open>
  C5. The claim fails at the id 0, by a slip of the code: \<^verbatim>\<open>consumeStream(0)\<close> puts the
  emitter into the table under the id 0 (line 243), but the test
  \<^verbatim>\<open>event && event.eventEmitterId\<close> of line 80 is false of the id 0, so the \<^verbatim>\<open>end\<close> event
  of stream 0 is never emitted on its emitter, and the id stays in the table.
\<close>

theorem emitter_zero_survives_end:
  "eventEmitters (run sample_config
      [ConsumeEventEmitter 0 [''data'', ''error'', ''close'', ''end''] (Some [''end'']),
       Message (stream_event 0 ''end'' JUndefined)] (constructor ''sock'')) 0 = Some 0"
  by code_simp

text \<open>
  For every nonzero id the code does what the claim says. In every state reached from the
  constructor, \<^verbatim>\<open>consumeEventEmitter\<close> with terminal event names registers the new emitter
  under the id, where it stays through every sequence of tasks that contains neither a
  terminal event for the id nor a new \<^verbatim>\<open>consumeEventEmitter\<close> of the id. The task that
  handles the first stream event for the id whose type is one of the terminal names removes
  the id from the table. Through every later sequence of tasks that does not consume the id
  again the id stays out of the table, and an event for the id is logged at error level and
  dropped: nothing is emitted, nothing is raised. \<^verbatim>\<open>consumeStream\<close> is the case of the
  terminal name \<^verbatim>\<open>end\<close>.
\<close>

theorem terminal_event_removes_emitter:
  fixes cfg :: config and s :: bus and eventEmitterId :: int and eventNames terminal :: "string list"
    and m1 m2 :: message and before after :: "op list"
  defines "s1 \<equiv> snd (consumeEventEmitter eventEmitterId eventNames (Some terminal) s)"
  defines "s2 \<equiv> run cfg before s1"
  defines "s3 \<equiv> run cfg after (step cfg (Message m1) s2)"
  assumes reach: "s = run cfg ops (constructor sid)"
      and nz: "eventEmitterId \<noteq> 0"
      and tyin: "ty \<in> set terminal"
      and m1: "\<not> service_channel cfg m1" "msg_event m1 = Some ev1"
              "ev_eventEmitterId ev1 = Some eventEmitterId" "ev_type ev1 = Some ty"
      and m2: "\<not> service_channel cfg m2" "msg_event m2 = Some ev2"
              "ev_eventEmitterId ev2 = Some eventEmitterId"
      and q1: "\<forall>a \<in> set before. \<not> ends cfg eventEmitterId terminal a \<and> \<not> reconsumes eventEmitterId a"
      and q2: "\<forall>a \<in> set after. \<not> reconsumes eventEmitterId a"
  shows "eventEmitters s2 eventEmitterId = Some (next_emitter s) \<and>
         eventEmitters (step cfg (Message m1) s2) eventEmitterId = None \<and>
         eventEmitters s3 eventEmitterId = None \<and>
         handleSocketMessage cfg m2 s3 =
           (Returned (), logger_error (EmitterNotFound eventEmitterId (ev_type ev2) (ev_args ev2)) s3)"
proof -
  have c: "streams s" using reach reachable_streams by simp
  have c1: "streams s1" unfolding s1_def using c by (rule streams_consume)
  have g1: "streaming eventEmitterId (next_emitter s) terminal s1"
    unfolding s1_def using consume_streaming [of eventEmitterId s "Some terminal" eventNames] by simp
  have g2: "streaming eventEmitterId (next_emitter s) terminal s2"
    unfolding s2_def using c1 g1 q1 by (rule run_streaming)
  have r1: "eventEmitters s2 eventEmitterId = Some (next_emitter s)"
    using g2 by (simp add: streaming_def)
  have ty: "event_key (ev_type ev1) \<in> set terminal" using m1(4) tyin by (simp add: event_key_def)
  have "eventEmitters (snd (handleSocketMessage cfg m1 s2)) eventEmitterId = None"
    using terminal_event_removes [OF nz m1(1,2,3) g2 ty] .
  then have r2: "eventEmitters (step cfg (Message m1) s2) eventEmitterId = None"
    by (simp add: step_def run_microtasks_table)
  have r3: "eventEmitters s3 eventEmitterId = None"
    unfolding s3_def using r2 q2 by (rule run_table_None)
  have r4: "handleSocketMessage cfg m2 s3 =
           (Returned (), logger_error (EmitterNotFound eventEmitterId (ev_type ev2) (ev_args ev2)) s3)"
    using handle_stream_unknown [OF m2(1) stream_idI [OF m2(2) m2(3) nz] r3 m2(2)] .
  show ?thesis using r1 r2 r3 r4 by simp
qed

theorem terminal_event_removes_emitter_witness:
  "eventEmitters
     (step sample_config (Message (stream_event 42 ''end'' JUndefined))
        (run sample_config [Message (stream_event 42 ''data'' (JArr [JNum 1])),
                            ConsumeEventEmitter 7 [''data''] None]
           (snd (consumeStream 42 (run sample_config [NextRequestId] (constructor ''sock''))))))
     42 = None \<and>
   fst (handleSocketMessage sample_config (stream_event 42 ''data'' (JArr [JNum 8]))
     (run sample_config [Message (stream_event 7 ''data'' JNull)]
        (step sample_config (Message (stream_event 42 ''end'' JUndefined))
           (run sample_config [Message (stream_event 42 ''data'' (JArr [JNum 1])),
                               ConsumeEventEmitter 7 [''data''] None]
              (snd (consumeStream 42 (run sample_config [NextRequestId] (constructor ''sock''))))))))
   = Returned ()"
proof -
  let ?m1 = "stream_event 42 ''end'' JUndefined"
  let ?m2 = "stream_event 42 ''data'' (JArr [JNum 8])"
  let ?before = "[Message (stream_event 42 ''data'' (JArr [JNum 1])),
                  ConsumeEventEmitter 7 [''data''] None]"
  let ?after = "[Message (stream_event 7 ''data'' JNull)]"
  have c: "\<not> service_channel sample_config ?m1" "\<not> service_channel sample_config ?m2"
    by (simp_all add: service_channel_def stream_event_def sample_config_def eventEmitterChannel_def)
  have e1: "msg_event ?m1 = Some \<lparr>ev_name = None, ev_args = JUndefined, ev_eventEmitterId = Some 42,
                                   ev_type = Some ''end''\<rparr>"
    by (simp add: stream_event_def)
  have e2: "msg_event ?m2 = Some \<lparr>ev_name = None, ev_args = JArr [JNum 8], ev_eventEmitterId = Some 42,
                                   ev_type = Some ''data''\<rparr>"
    by (simp add: stream_event_def)
  have i: "(42::int) \<noteq> 0" "''end'' \<in> set [''end'']"
          "ev_eventEmitterId \<lparr>ev_name = None, ev_args = JUndefined, ev_eventEmitterId = Some 42,
                               ev_type = Some ''end''\<rparr> = Some 42"
          "ev_type \<lparr>ev_name = None, ev_args = JUndefined, ev_eventEmitterId = Some 42,
                     ev_type = Some ''end''\<rparr> = Some ''end''"
          "ev_eventEmitterId \<lparr>ev_name = None, ev_args = JArr [JNum 8], ev_eventEmitterId = Some 42,
                               ev_type = Some ''data''\<rparr> = Some 42"
    by simp_all
  have q1: "\<forall>a \<in> set ?before. \<not> ends sample_config 42 [''end''] a \<and> \<not> reconsumes 42 a"
    by (simp add: stream_event_def event_key_def)
  have q2: "\<forall>a \<in> set ?after. \<not> reconsumes 42 a"
    by simp
  show ?thesis
    using terminal_event_removes_emitter [OF refl i(1) i(2) c(1) e1 i(3) i(4) c(2) e2 i(5) q1 q2,
            where eventNames = "[''data'', ''error'', ''close'', ''end'']" and ops = "[NextRequestId]"
              and sid = "''sock''"]
    by (simp add: consumeStream_def)
qed


text \<open>
  C7. As amended. The outcome of the handler, for an envelope whose fields have the types
  of the protocol and listeners that return normally. It raises a \<^verbatim>\<open>TypeError\<close> when an
  envelope of the RPC or \<^verbatim>\<open>ClientComponent\<close> channel carries no \<^verbatim>\<open>requestId\<close>, or an
  envelope of the event channel no \<^verbatim>\<open>event\<close>. It raises the error of \<^verbatim>\<open>EventEmitter\<close>
  when it emits an event named \<^verbatim>\<open>error\<close> on an emitter that has no listener for
  \<^verbatim>\<open>error\<close>: the event emitter, the emitter of a registered stream, or the generic bus.
  In every other case it returns normally.
\<close>

theorem handler_returns_on_complete_envelope:
  "fst (handleSocketMessage cfg m s) =
     (if msg_channel m = Some (SERVICE_FRAMEWORK_RPC_CHANNEL cfg) then
        (case msg_requestId m of None \<Rightarrow> Threw TypeError | Some r \<Rightarrow> Returned ())
      else if msg_channel m = Some (SERVICE_FRAMEWORK_EVENT_CHANNEL cfg) then
        (case msg_event m of
           None \<Rightarrow> Threw TypeError
         | Some ev \<Rightarrow>
             if error_event_unhandled s ServiceFrameworkEventEmitter (ev_name ev)
             then Threw UnhandledErrorEvent else Returned ())
      else if msg_channel m = Some (SERVICE_FRAMEWORK3_CHANNEL cfg) then
        (case msg_requestId m of None \<Rightarrow> Threw TypeError | Some r \<Rightarrow> Returned ())
      else
        (case stream_id m of
           None \<Rightarrow>
             if error_event_unhandled s Eventbus (msg_channel m)
             then Threw UnhandledErrorEvent else Returned ()
         | Some i \<Rightarrow>
             (case (eventEmitters s i, msg_event m) of
                (Some e, Some ev) \<Rightarrow>
                  if error_event_unhandled s (StreamEmitter e) (ev_type ev) \<or>
                     error_event_unhandled s Eventbus (msg_channel m)
                  then Threw UnhandledErrorEvent else Returned ()
              | _ \<Rightarrow> Returned ())))"
proof -
  have num: "\<not> error_event_unhandled s r (Some (show_int q))" for r q
    using show_int_not_error [of q] by (simp add: error_event_unhandled_def)
  have out: "fst (emit r n as x) =
               (if error_event_unhandled x r n then Threw UnhandledErrorEvent else Returned ())" for r n as x
    by (simp add: emit_threw emit_returned)
  consider (a) "msg_channel m = Some (SERVICE_FRAMEWORK_RPC_CHANNEL cfg)"
    | (b) "msg_channel m \<noteq> Some (SERVICE_FRAMEWORK_RPC_CHANNEL cfg)"
          "msg_channel m = Some (SERVICE_FRAMEWORK_EVENT_CHANNEL cfg)"
    | (c) "msg_channel m \<noteq> Some (SERVICE_FRAMEWORK_RPC_CHANNEL cfg)"
          "msg_channel m \<noteq> Some (SERVICE_FRAMEWORK_EVENT_CHANNEL cfg)"
          "msg_channel m = Some (SERVICE_FRAMEWORK3_CHANNEL cfg)"
    | (d) "\<not> service_channel cfg m"
    unfolding service_channel_def by blast
  then show ?thesis
  proof cases
    case a
    show ?thesis
      using a num by (cases "msg_requestId m") (simp_all add: handle_rpc [OF a] out)
  next
    case b
    show ?thesis
      using b by (cases "msg_event m") (simp_all add: handle_event [OF b] out)
  next
    case c
    show ?thesis
      using c num by (cases "msg_requestId m") (simp_all add: handle_sf3 [OF c] out)
  next
    case d
    then have nd: "msg_channel m \<noteq> Some (SERVICE_FRAMEWORK_RPC_CHANNEL cfg)"
          "msg_channel m \<noteq> Some (SERVICE_FRAMEWORK_EVENT_CHANNEL cfg)"
          "msg_channel m \<noteq> Some (SERVICE_FRAMEWORK3_CHANNEL cfg)"
      by (simp_all add: service_channel_def)
    show ?thesis
    proof (cases "stream_id m")
      case None
      then show ?thesis using nd by (simp add: handle_generic [OF d None] out)
    next
      case (Some i)
      then obtain ev where ev: "msg_event m = Some ev"
        by (auto simp: stream_id_def split: option.splits)
      show ?thesis
      proof (cases "eventEmitters s i")
        case None
        show ?thesis
          using nd \<open>stream_id m = Some i\<close> None ev
          by (simp add: handle_stream_unknown [OF d Some None ev])
      next
        case (Some e)
        show ?thesis
        proof (cases "error_event_unhandled s (StreamEmitter e) (ev_type ev)")
          case True
          show ?thesis
            using nd \<open>stream_id m = Some i\<close> Some ev True
            by (simp add: handle_stream_known_threw [OF d \<open>stream_id m = Some i\<close> Some ev True])
        next
          case False
          let ?s1 = "snd (emit (StreamEmitter e) (ev_type ev) (concat_args (ev_args ev)) s)"
          have "listeners ?s1 Eventbus = listeners s Eventbus" by (simp add: emit_listeners_other)
          then have u: "error_event_unhandled ?s1 Eventbus (msg_channel m) \<longleftrightarrow>
                        error_event_unhandled s Eventbus (msg_channel m)"
            by (simp add: error_event_unhandled_def)
          show ?thesis
            using nd \<open>stream_id m = Some i\<close> Some ev False u
            by (simp add: handle_stream_known_returned [OF d \<open>stream_id m = Some i\<close> Some ev False] out)
        qed
      qed
    qed
  qed
qed

theorem handler_returns_on_complete_envelope_witness:
  "fst (handleSocketMessage sample_config (rpc_response sample_config (Some 7) JUndefined (JStr ''ok''))
          (constructor ''sock'')) = Returned () \<and>
   fst (handleSocketMessage sample_config (rpc_response sample_config None JUndefined (JStr ''ok''))
          (constructor ''sock'')) = Threw TypeError \<and>
   fst (handleSocketMessage sample_config
          \<lparr>msg_channel = Some (SERVICE_FRAMEWORK_EVENT_CHANNEL sample_config), msg_event = None,
            msg_requestId = None, msg_hadError = JUndefined, msg_error = JUndefined,
            msg_result = JUndefined\<rparr>
          (constructor ''sock'')) = Threw TypeError \<and>
   fst (handleSocketMessage sample_config
          \<lparr>msg_channel = Some (SERVICE_FRAMEWORK3_CHANNEL sample_config), msg_event = None,
            msg_requestId = None, msg_hadError = JUndefined, msg_error = JUndefined,
            msg_result = JUndefined\<rparr>
          (constructor ''sock'')) = Threw TypeError \<and>
   fst (handleSocketMessage sample_config (stream_event 42 ''error'' JNull)
          (snd (consumeStream 42 (constructor ''sock'')))) = Threw UnhandledErrorEvent"
proof -
  let ?s = "constructor ''sock''"
  let ?c = "snd (consumeStream 42 (constructor ''sock''))"
  let ?r = "rpc_response sample_config (Some 7) JUndefined (JStr ''ok'')"
  let ?n = "rpc_response sample_config None JUndefined (JStr ''ok'')"
  let ?v = "\<lparr>msg_channel = Some (SERVICE_FRAMEWORK_EVENT_CHANNEL sample_config), msg_event = None,
            msg_requestId = None, msg_hadError = JUndefined, msg_error = JUndefined,
            msg_result = JUndefined\<rparr>"
  let ?f = "\<lparr>msg_channel = Some (SERVICE_FRAMEWORK3_CHANNEL sample_config), msg_event = None,
            msg_requestId = None, msg_hadError = JUndefined, msg_error = JUndefined,
            msg_result = JUndefined\<rparr>"
  let ?e = "stream_event 42 ''error'' JNull"
  have c: "SERVICE_FRAMEWORK_EVENT_CHANNEL sample_config \<noteq> SERVICE_FRAMEWORK_RPC_CHANNEL sample_config"
          "SERVICE_FRAMEWORK3_CHANNEL sample_config \<noteq> SERVICE_FRAMEWORK_RPC_CHANNEL sample_config"
          "SERVICE_FRAMEWORK3_CHANNEL sample_config \<noteq> SERVICE_FRAMEWORK_EVENT_CHANNEL sample_config"
          "msg_channel ?e \<noteq> Some (SERVICE_FRAMEWORK_RPC_CHANNEL sample_config)"
          "msg_channel ?e \<noteq> Some (SERVICE_FRAMEWORK_EVENT_CHANNEL sample_config)"
          "msg_channel ?e \<noteq> Some (SERVICE_FRAMEWORK3_CHANNEL sample_config)"
    by (simp_all add: stream_event_def sample_config_def eventEmitterChannel_def)
  have v: "stream_id ?e = Some 42" "eventEmitters ?c 42 = Some 0"
          "error_event_unhandled ?c (StreamEmitter 0) (Some ''error'')"
    by code_simp+
  have 1: "fst (handleSocketMessage sample_config ?r ?s) = Returned ()"
    using handler_returns_on_complete_envelope [of sample_config ?r ?s] by (simp add: rpc_response_def)
  have 2: "fst (handleSocketMessage sample_config ?n ?s) = Threw TypeError"
    using handler_returns_on_complete_envelope [of sample_config ?n ?s] by (simp add: rpc_response_def)
  have 3: "fst (handleSocketMessage sample_config ?v ?s) = Threw TypeError"
    using handler_returns_on_complete_envelope [of sample_config ?v ?s] by (simp add: c)
  have 4: "fst (handleSocketMessage sample_config ?f ?s) = Threw TypeError"
    using handler_returns_on_complete_envelope [of sample_config ?f ?s] by (simp add: c)
  have 5: "fst (handleSocketMessage sample_config ?e ?c) = Threw UnhandledErrorEvent"
    using handler_returns_on_complete_envelope [of sample_config ?e ?c] by (simp add: c v) (simp add: stream_event_def v)
  show ?thesis using 1 2 3 4 5 by simp
qed

text \<open>
  The claim as stated fails: an envelope of the RPC channel without a \<^verbatim>\<open>requestId\<close> makes the
  handler raise a \<^verbatim>\<open>TypeError\<close>.
\<close>

theorem rpc_response_without_requestId_throws:
  "fst (handleSocketMessage sample_config (rpc_response sample_config None JUndefined (JStr ''ok''))
     (constructor ''sock'')) = Threw TypeError"
  by code_simp

text \<open>
  C8. Handling an envelope of the RPC channel whose \<^verbatim>\<open>requestId\<close> has no pending request
  (no listener is registered under the id) returns normally and leaves the state of the
  connection as it was: only the call of \<^verbatim>\<open>emit\<close> is recorded.
\<close>

theorem unmatched_rpc_response_is_dropped:
  assumes "msg_channel m = Some (SERVICE_FRAMEWORK_RPC_CHANNEL cfg)"
      and "msg_requestId m = Some r"
      and "listeners s ServiceFrameworkRpcEmitter (show_int r) = []"
  shows "handleSocketMessage cfg m s =
           (Returned (),
            s\<lparr>emitted := emitted s @
                 [(ServiceFrameworkRpcEmitter, Some (show_int r), [msg_error m, msg_result m])]\<rparr>)"
  using assms by (rule handle_rpc_no_listener)

theorem unmatched_rpc_response_is_dropped_witness:
  "handleSocketMessage sample_config (rpc_response sample_config (Some 7) JUndefined (JStr ''late''))
     (constructor ''sock'') =
   (Returned (),
    (constructor ''sock'')\<lparr>emitted :=
       [(ServiceFrameworkRpcEmitter, Some (show_int 7), [JUndefined, JStr ''late''])]\<rparr>)"
  using unmatched_rpc_response_is_dropped [of "rpc_response sample_config (Some 7) JUndefined (JStr ''late'')" sample_config 7
              "constructor ''sock''"]
  by (simp add: rpc_response_def constructor_def)

text \<open>
  C9. As amended. \<^verbatim>\<open>close\<close> is not idempotent: on an open connection it returns normally,
  closes the socket and clears the reference to it, and a second \<^verbatim>\<open>close\<close> raises a
  \<^verbatim>\<open>TypeError\<close>. After the close no run of the methods of the event bus hands anything
  to the transport (the \<^verbatim>\<open>ClientComponent\<close>, which holds the socket itself, is outside
  the model). The close settles no pending call, cancels no timer and removes no
  listener. In every state reached from the constructor, a call pending at the close stays
  pending through every sequence of tasks that contains neither its response nor the
  expiry of its timer, and is then settled as without the close: by its response when one
  is still handled, by its timer otherwise, with the string
  \<^verbatim>\<open>Timeout after T for service/method\<close> (\<open>T\<close> below \<open>2^53\<close> in absolute value).
\<close>

theorem close_keeps_pending_calls:
  fixes s :: bus and cfg :: config and m :: message and t :: timer
    and between later :: "op list"
  defines "s1 \<equiv> snd (close s)"
  defines "s2 \<equiv> run cfg between s1"
  defines "by_response \<equiv> (if truthy (msg_error m) then Rejected (Value (msg_error m))
                            else Fulfilled (msg_result m))"
      and "by_timeout \<equiv> Rejected (Value (JStr (''Timeout after '' @ show_int (tm_timeout t) @ '' for '' @
                                              tm_serviceName t @ ''/'' @ tm_methodName t)))"
  assumes reach: "s = run cfg ops (constructor sid)"
      and opn: "socket s \<noteq> None"
      and pend: "t \<in> set (timers s)" "promise_state s (tm_promise t) = Pending"
      and safe: "\<bar>tm_timeout t\<bar> < 2 ^ 53"
      and ch: "msg_channel m = Some (SERVICE_FRAMEWORK_RPC_CHANNEL cfg)"
      and rid: "msg_requestId m = Some (tm_requestId t)"
      and quiet: "\<forall>a \<in> set between. \<not> hits cfg a t"
  shows "fst (close s) = Returned () \<and> socket s1 = None \<and> socket_closed s1 \<and>
         close s1 = (Threw TypeError, s1) \<and>
         sent (run cfg later s1) = sent s \<and> xhr_requests (run cfg later s1) = xhr_requests s \<and>
         promises s1 = promises s \<and> timers s1 = timers s \<and> listeners s1 = listeners s \<and>
         promise_state s2 (tm_promise t) = Pending \<and> t \<in> set (timers s2) \<and>
         promise_state (run cfg later (step cfg (Message m) s2)) (tm_promise t) = by_response \<and>
         promise_state (run cfg later (step cfg (TimerExpired t) s2)) (tm_promise t) = by_timeout"
proof -
  obtain c where o: "socket s = Some c" using opn by auto
  have cl: "close s = (Returned (), s\<lparr>socket_closed := True, socket := None\<rparr>)"
    by (simp add: close_def o)
  have n: "socket s1 = None" by (simp add: s1_def cl)
  have a: "fst (close s) = Returned ()" "socket_closed s1" "promises s1 = promises s"
    "timers s1 = timers s" "listeners s1 = listeners s"
    by (simp_all add: s1_def cl)
  have b: "close s1 = (Threw TypeError, s1)" using n by (rule close_wire)
  have w: "sent (run cfg later s1) = sent s" "xhr_requests (run cfg later s1) = xhr_requests s"
    using run_closed [OF n, of cfg later] by (simp_all add: s1_def cl)
  have ts: "tracked s" using reach reachable_tracked by simp
  have t1: "tracked s1" unfolding s1_def using ts close_frame by (rule tracked_frame)
  have pl: "tm_promise t < length (promises s)" using trackedD(5) [OF ts pend(1)] .
  have "promises s ! tm_promise t = Pending" using pend(2) pl by (simp add: promise_state_def)
  then have f1: "in_flight t s1" using pend(1) a by (simp add: in_flight_def)
  have t2: "tracked s2" using run_tracked [OF t1] by (simp add: s2_def)
  have f2: "in_flight t s2" using run_in_flight [OF t1 f1 quiet] by (simp add: s2_def)
  have 1: "promise_state s2 (tm_promise t) = Pending" "t \<in> set (timers s2)"
    using f2 by (simp_all add: in_flight_def promise_state_def)
  have 2: "promise_state (run cfg later (step cfg (Message m) s2)) (tm_promise t) = by_response"
    using response_settles [OF t2 f2 ch rid, of later] by (simp add: by_response_def)
  have 3: "promise_state (run cfg later (step cfg (TimerExpired t) s2)) (tm_promise t) = by_timeout"
    using timeout_settles [OF t2 f2 ch rid, of later] by (simp add: by_timeout_def timeout_message_def)
  show ?thesis using a n b w 1 2 3 by simp
qed

theorem close_keeps_pending_calls_witness:
  "close (snd (close (run sample_config [CallServiceFrameworkMethod ''svc'' ''m'' [] JNull 5000]
                        (constructor ''sock'')))) =
     (Threw TypeError,
      snd (close (run sample_config [CallServiceFrameworkMethod ''svc'' ''m'' [] JNull 5000]
                    (constructor ''sock'')))) \<and>
   promise_state
     (run sample_config []
        (step sample_config
           (TimerExpired \<lparr>tm_requestId = 1, tm_promise = 0, tm_timeout = 5000,
                           tm_serviceName = ''svc'', tm_methodName = ''m''\<rparr>)
           (run sample_config [CallMethod ''svc'' ''n'' None JNull]
              (snd (close (run sample_config [CallServiceFrameworkMethod ''svc'' ''m'' [] JNull 5000]
                             (constructor ''sock'')))))))
     0 = Rejected (Value (JStr ''Timeout after 5000 for svc/m'')) \<and>
   promise_state
     (run sample_config []
        (step sample_config (Message (rpc_response sample_config (Some 1) JUndefined (JStr ''ok'')))
           (run sample_config [CallMethod ''svc'' ''n'' None JNull]
              (snd (close (run sample_config [CallServiceFrameworkMethod ''svc'' ''m'' [] JNull 5000]
                             (constructor ''sock'')))))))
     0 = Fulfilled (JStr ''ok'')"
proof -
  let ?s = "run sample_config [CallServiceFrameworkMethod ''svc'' ''m'' [] JNull 5000] (constructor ''sock'')"
  let ?t = "\<lparr>tm_requestId = 1, tm_promise = 0, tm_timeout = 5000,
             tm_serviceName = ''svc'', tm_methodName = ''m''\<rparr>"
  let ?m = "rpc_response sample_config (Some 1) JUndefined (JStr ''ok'')"
  let ?between = "[CallMethod ''svc'' ''n'' None JNull]"
  have o: "socket ?s \<noteq> None" by code_simp
  have t: "?t \<in> set (timers ?s)" "promise_state ?s (tm_promise ?t) = Pending" by code_simp+
  have b: "\<bar>tm_timeout ?t\<bar> < 2 ^ 53" by simp
  have m: "msg_channel ?m = Some (SERVICE_FRAMEWORK_RPC_CHANNEL sample_config)"
          "msg_requestId ?m = Some (tm_requestId ?t)"
    by (simp_all add: rpc_response_def)
  have q: "\<forall>a \<in> set ?between. \<not> hits sample_config a ?t" by simp
  have d: "show_int 5000 = ''5000''" by code_simp
  note all = close_keeps_pending_calls [OF refl o t b m q, where later = "[]"]
  have 1: "close (snd (close ?s)) = (Threw TypeError, snd (close ?s))"
    using all [THEN conjunct2, THEN conjunct2, THEN conjunct2, THEN conjunct1] .
  have 2: "promise_state
     (run sample_config [] (step sample_config (TimerExpired ?t)
        (run sample_config ?between (snd (close ?s))))) 0 =
     Rejected (Value (JStr ''Timeout after 5000 for svc/m''))"
    using all by (simp add: d)
  have 3: "promise_state
     (run sample_config [] (step sample_config (Message ?m)
        (run sample_config ?between (snd (close ?s))))) 0 = Fulfilled (JStr ''ok'')"
    using all by (simp add: rpc_response_def)
  show ?thesis using 1 2 3 by simp
qed

text \<open>
  The claim as stated fails: a call pending when the connection is closed is still pending
  after \<^verbatim>\<open>close\<close>, and a second \<^verbatim>\<open>close\<close> raises.
\<close>

theorem pending_call_unsettled_by_close:
  "promise_state (run sample_config
      [CallServiceFrameworkMethod ''svc'' ''m'' [] JNull 5000, Close] (constructor ''sock'')) 0 = Pending \<and>
   fst (close (run sample_config
      [CallServiceFrameworkMethod ''svc'' ''m'' [] JNull 5000, Close] (constructor ''sock''))) =
     Threw TypeError"
  by code_simp

text \<open>
  C10. The claim fails at the id 0, by the slip of the code that C5 fails by:
  \<^verbatim>\<open>consumeEventEmitter(0, ...)\<close> puts the emitter into the table under the id 0, but the
  test of line 80 is false of the id 0, so an event of emitter 0 handled after it is
  emitted on the generic bus only, never on the emitter.
\<close>

theorem stream_event_for_emitter_zero_bypasses_emitter:
  "map fst (emitted (run sample_config
      [ConsumeEventEmitter 0 [''data''] None,
       Message (stream_event 0 ''data'' (JArr [JNum 7]))] (constructor ''sock''))) = [Eventbus]"
  by code_simp

text \<open>
  For every nonzero id the code does what the claim says. In every state reached from the
  constructor, \<^verbatim>\<open>consumeEventEmitter\<close> has put the new emitter into the table when it
  suspends on the subscribe round trip. Through every sequence of tasks that contains
  neither a terminal event for the id nor a new \<^verbatim>\<open>consumeEventEmitter\<close> of the id, the
  emitter stays in the table, and a stream event for the id is emitted on that emitter and
  is not logged as unknown.
\<close>

theorem stream_event_during_subscribe:
  fixes cfg :: config and s :: bus and eventEmitterId :: int and eventNames :: "string list"
    and disposeEventNames :: "string list option" and m :: message and before :: "op list"
  defines "s1 \<equiv> snd (consumeEventEmitter eventEmitterId eventNames disposeEventNames s)"
  defines "s2 \<equiv> run cfg before s1"
  assumes reach: "s = run cfg ops (constructor sid)"
      and nz: "eventEmitterId \<noteq> 0"
      and m: "\<not> service_channel cfg m" "msg_event m = Some ev"
             "ev_eventEmitterId ev = Some eventEmitterId"
      and q: "\<forall>a \<in> set before.
                \<not> ends cfg eventEmitterId (case disposeEventNames of None \<Rightarrow> [] | Some ns \<Rightarrow> ns) a \<and>
                \<not> reconsumes eventEmitterId a"
  shows "eventEmitters s2 eventEmitterId = Some (next_emitter s) \<and>
         take (Suc (length (emitted s2))) (emitted (snd (handleSocketMessage cfg m s2))) =
           emitted s2 @ [(StreamEmitter (next_emitter s), ev_type ev, concat_args (ev_args ev))] \<and>
         error_log (snd (handleSocketMessage cfg m s2)) = error_log s2"
proof -
  let ?T = "case disposeEventNames of None \<Rightarrow> [] | Some ns \<Rightarrow> ns"
  have c: "streams s" using reach reachable_streams by simp
  have c1: "streams s1" unfolding s1_def using c by (rule streams_consume)
  have g1: "streaming eventEmitterId (next_emitter s) ?T s1"
    unfolding s1_def by (rule consume_streaming)
  have g2: "streaming eventEmitterId (next_emitter s) ?T s2"
    unfolding s2_def using c1 g1 q by (rule run_streaming)
  have r1: "eventEmitters s2 eventEmitterId = Some (next_emitter s)"
    using g2 by (simp add: streaming_def)
  show ?thesis using r1 stream_event_delivered [OF nz m r1] by simp
qed

theorem stream_event_during_subscribe_witness:
  "take 3 (emitted (snd (handleSocketMessage sample_config (stream_event 42 ''data'' (JArr [JNum 7]))
     (run sample_config [CallMethod ''eventbus'' ''subscribe'' None JNull,
                         Message (stream_event 42 ''data'' (JArr [JNum 6]))]
        (snd (consumeEventEmitter 42 [''data''] (Some [''end''])
                (run sample_config [NextRequestId] (constructor ''sock''))))))))
   = emitted
       (run sample_config [CallMethod ''eventbus'' ''subscribe'' None JNull,
                           Message (stream_event 42 ''data'' (JArr [JNum 6]))]
          (snd (consumeEventEmitter 42 [''data''] (Some [''end''])
                  (run sample_config [NextRequestId] (constructor ''sock''))))) @
     [(StreamEmitter 0, Some ''data'', [JNum 7])] \<and>
   error_log (snd (handleSocketMessage sample_config (stream_event 42 ''data'' (JArr [JNum 7]))
     (run sample_config [CallMethod ''eventbus'' ''subscribe'' None JNull,
                         Message (stream_event 42 ''data'' (JArr [JNum 6]))]
        (snd (consumeEventEmitter 42 [''data''] (Some [''end''])
                (run sample_config [NextRequestId] (constructor ''sock''))))))) = []"
proof -
  let ?s = "run sample_config [NextRequestId] (constructor ''sock'')"
  let ?m = "stream_event 42 ''data'' (JArr [JNum 7])"
  let ?before = "[CallMethod ''eventbus'' ''subscribe'' None JNull,
                  Message (stream_event 42 ''data'' (JArr [JNum 6]))]"
  let ?s2 = "run sample_config ?before (snd (consumeEventEmitter 42 [''data''] (Some [''end'']) ?s))"
  have c: "\<not> service_channel sample_config ?m"
    by (simp add: service_channel_def stream_event_def sample_config_def eventEmitterChannel_def)
  have e: "msg_event ?m = Some \<lparr>ev_name = None, ev_args = JArr [JNum 7], ev_eventEmitterId = Some 42,
                                 ev_type = Some ''data''\<rparr>"
    by (simp add: stream_event_def)
  have i: "(42::int) \<noteq> 0"
          "ev_eventEmitterId \<lparr>ev_name = None, ev_args = JArr [JNum 7], ev_eventEmitterId = Some 42,
                               ev_type = Some ''data''\<rparr> = Some 42"
    by simp_all
  have q: "\<forall>a \<in> set ?before.
             \<not> ends sample_config 42 (case Some [''end''] of None \<Rightarrow> [] | Some ns \<Rightarrow> ns) a \<and>
             \<not> reconsumes 42 a"
    by (simp add: stream_event_def event_key_def)
  have v: "length (emitted ?s2) = 2" "next_emitter ?s = 0" "error_log ?s2 = []"
    by code_simp+
  show ?thesis
    using stream_event_during_subscribe [OF refl i(1) c e i(2) q, where eventNames = "[''data'']" and ops = "[NextRequestId]" and sid = "''sock''"]
    by (simp add: v)
qed

end
